theory Spec2Isabelle
  imports Main "HOL-Library.AList" "HOL-Library.Sublist" "HOL-Library.Multiset"
begin

section \<open>Data model (internal/types/types.go)\<close>

text \<open>
  Go's \<open>int\<close> is modelled as \<open>int\<close>: a score is a sum of at most
  \<open>len(Votes) * N\<close> small positive numbers, far from the 64-bit range. Timestamps
  and the fields no operation below reads are left out of the records.
\<close>

datatype Solution = Solution (sol_AgentID: int) (sol_Content: string)

datatype Critique = Critique (crit_AgentID: int) (crit_Round: int) (crit_Content: string)

record Vote =
  VoterID :: int
  Rankings :: "int list"
  Reasoning :: string

text \<open>
  \<open>Scores\<close> is a Go \<open>map[int]int\<close>. It is kept as an association list with
  the map's update discipline (\<open>AList.update\<close> overwrites an existing key and
  appends a new one), read through \<open>map_of\<close>. Go ranges over a map in an
  unspecified order; the two loops of \<open>Tally\<close> that range over it are shown below
  to give the same result for every order of the entries.
\<close>

type_synonym scores = "(int \<times> int) list"

record Session =
  Task :: string
  AgentCount :: int
  Solutions :: "Solution list"
  Critiques :: "Critique list"
  Votes :: "Vote list"
  Scores :: scores
  WinnerID :: "int option"
  IsTie :: bool
  TiedAgents :: "int list"

section \<open>Participants and the council (agent.go, council.go)\<close>

record Agent =
  ID :: int
  Total :: int

record Council =
  agents :: "Agent list"
  session :: Session

text \<open>
  The council \<open>council.New\<close> returns once the API key is found: agents
  \<open>1..AgentCount\<close>, each knowing the total, and an empty session (\<open>Scores\<close> is
  \<open>make(map[int]int)\<close>).
\<close>

definition New :: "string \<Rightarrow> int \<Rightarrow> Council" where
  "New task agentCount =
     \<lparr>agents = map (\<lambda>i. \<lparr>ID = i, Total = agentCount\<rparr>) [1..agentCount],
      session = \<lparr>Task = task, AgentCount = agentCount, Solutions = [], Critiques = [],
                 Votes = [], Scores = [], WinnerID = None, IsTie = False,
                 TiedAgents = []\<rparr>\<rparr>"

section \<open>Tally (vote.go)\<close>

text \<open>Reading a Go map at a missing key gives the zero value.\<close>

definition scoreOf :: "scores \<Rightarrow> int \<Rightarrow> int" where
  "scoreOf sc agentID = (case map_of sc agentID of None \<Rightarrow> 0 | Some v \<Rightarrow> v)"

text \<open>\<open>for _, ag := range c.agents { c.session.Scores[ag.ID] = 0 }\<close>\<close>

definition seedScores :: "Agent list \<Rightarrow> scores \<Rightarrow> scores" where
  "seedScores ags sc = fold (\<lambda>ag. AList.update (ID ag) 0) ags sc"

text \<open>\<open>c.session.Scores[agentID] += points\<close>\<close>

definition addPoints :: "int \<Rightarrow> int \<Rightarrow> scores \<Rightarrow> scores" where
  "addPoints agentID points sc = AList.update agentID (scoreOf sc agentID + points) sc"

text \<open>The inner loop over one vote's rankings, from position \<open>i\<close> on.\<close>

fun tallyRankings :: "int \<Rightarrow> nat \<Rightarrow> int list \<Rightarrow> scores \<Rightarrow> scores" where
  "tallyRankings n i [] sc = sc"
| "tallyRankings n i (agentID # rest) sc =
     (let points = n - 1 - int i in
      tallyRankings n (Suc i) rest (if points > 0 then addPoints agentID points sc else sc))"

definition tallyVotes :: "int \<Rightarrow> Vote list \<Rightarrow> scores \<Rightarrow> scores" where
  "tallyVotes n votes sc = fold (\<lambda>vote. tallyRankings n 0 (Rankings vote)) votes sc"

text \<open>\<open>maxScore := 0; for _, score := range Scores { if score > maxScore {...} }\<close>\<close>

definition maxScoreOf :: "scores \<Rightarrow> int" where
  "maxScoreOf sc = fold (\<lambda>entry m. if snd entry > m then snd entry else m) sc 0"

text \<open>The winners loop followed by \<open>sort.Ints(winners)\<close>.\<close>

definition winnersOf :: "scores \<Rightarrow> int list" where
  "winnersOf sc = sort (map fst (filter (\<lambda>entry. snd entry = maxScoreOf sc) sc))"

definition Tally :: "Council \<Rightarrow> Council" where
  "Tally c =
     (let n = int (length (agents c));
          s = session c;
          sc = tallyVotes n (Votes s) (seedScores (agents c) (Scores s));
          winners = winnersOf sc
      in c\<lparr>session :=
           (if length winners = 1
            then s\<lparr>Scores := sc, WinnerID := Some (winners ! 0), IsTie := False,
                   TiedAgents := []\<rparr>
            else s\<lparr>Scores := sc, WinnerID := None, IsTie := True,
                   TiedAgents := winners\<rparr>)\<rparr>)"

subsection \<open>The scoring rule in the specification's words\<close>

text \<open>
  Position \<open>i\<close> of a ranking is worth \<open>N - 1 - i\<close> points, and nothing once that
  is no longer positive; an agent's expected score is the sum of what every position
  naming it is worth, over all votes.
\<close>

definition positionPoints :: "int \<Rightarrow> nat \<Rightarrow> int" where
  "positionPoints n i = max 0 (n - 1 - int i)"

definition pointsFrom :: "int \<Rightarrow> nat \<Rightarrow> int list \<Rightarrow> int \<Rightarrow> int" where
  "pointsFrom n i0 rankings a =
     (\<Sum>j\<leftarrow>[0..<length rankings]. if rankings ! j = a then positionPoints n (i0 + j) else 0)"

definition expectedScore :: "int \<Rightarrow> Vote list \<Rightarrow> int \<Rightarrow> int" where
  "expectedScore n votes a = (\<Sum>v\<leftarrow>votes. pointsFrom n 0 (Rankings v) a)"

definition voteWeight :: "int \<Rightarrow> Vote \<Rightarrow> int" where
  "voteWeight n v = (\<Sum>i\<leftarrow>[0..<length (Rankings v)]. positionPoints n i)"

text \<open>
  The weight of a vote with every position counted at \<open>N - 1 - i\<close>, also where that
  is negative (the sum as the specification's testable property writes it).
\<close>

definition voteWeightAsStated :: "int \<Rightarrow> Vote \<Rightarrow> int" where
  "voteWeightAsStated n v = (\<Sum>i\<leftarrow>[0..<length (Rankings v)]. n - 1 - int i)"

text \<open>The agentIDs of the score table that attain its maximum score.\<close>

definition topAgents :: "scores \<Rightarrow> int set" where
  "topAgents sc =
     {a \<in> fst ` set sc. \<forall>b \<in> fst ` set sc. scoreOf sc b \<le> scoreOf sc a}"

section \<open>Model Gateway (client.go)\<close>

text \<open>
  Go errors as values. \<open>APIError\<close> carries \<open>StatusCode\<close>, \<open>Type\<close> and
  \<open>Message\<close>; \<open>Errorf msg err\<close> is \<open>fmt.Errorf("msg: %w", err)\<close>;
  \<open>LibraryError\<close> stands for an error value of the standard library (transport,
  JSON); \<open>ContextDone\<close> is \<open>ctx.Err()\<close> and \<open>NilError\<close> a nil error value.
  \<open>NoJSONFound\<close>, \<open>SelfVote\<close> and \<open>InvalidAgentID\<close> are the messages
  \<open>parseVote\<close> builds, and \<open>VoteFailedAfterRetry id err\<close> is
  \<open>fmt.Errorf("agent %d: vote failed after retry: %w", id, err)\<close>.
\<close>

datatype error =
    APIError int string string
  | LibraryError string
  | ContextDone
  | NilError
  | Errorf string error
  | NoJSONFound
  | SelfVote int
  | InvalidAgentID int
  | VoteFailedAfterRetry int error

record contentBlock =
  Type :: string
  Text :: string

record messageResponse =
  Content :: "contentBlock list"

definition maxRetries :: nat where
  "maxRetries = 3"

text \<open>\<open>baseRetryDelay\<close>, in seconds (the time unit of the backoff).\<close>

definition baseRetryDelay :: nat where
  "baseRetryDelay = 1"

text \<open>
  \<open>isRateLimitError\<close> is a type assertion on the error itself (not
  \<open>errors.As\<close>), so a wrapped \<open>APIError\<close> is not a rate-limit error.
\<close>

definition isRateLimitError :: "error \<Rightarrow> bool" where
  "isRateLimitError err =
     (case err of APIError statusCode _ _ \<Rightarrow> statusCode = 429 | _ \<Rightarrow> False)"

definition extractText :: "messageResponse \<Rightarrow> string" where
  "extractText resp =
     (case find (\<lambda>content. Type content = ''text'') (Content resp) of
        Some content \<Rightarrow> Text content
      | None \<Rightarrow> [])"

text \<open>
  The remote backend is outside the program: \<open>doRequest\<close> is given as the outcome of
  the HTTP exchange of each attempt, and \<open>cancelled attempt\<close> says whether
  \<open>ctx.Done()\<close> wins the \<open>select\<close> of the wait that follows that attempt.
  Beside the returned pair, the model records the waits that ran to their end and the
  number of calls of \<open>doRequest\<close>.
\<close>

type_synonym backend = "nat \<Rightarrow> error + messageResponse"

type_synonym canceller = "nat \<Rightarrow> bool"

record sendOutcome =
  sent_result :: "error + string"
  sent_delays :: "nat list"
  sent_requests :: nat

function SendMessage_loop ::
  "backend \<Rightarrow> canceller \<Rightarrow> nat \<Rightarrow> error option \<Rightarrow> nat list \<Rightarrow> sendOutcome" where
  "SendMessage_loop doRequest cancelled attempt lastErr delays =
     (if attempt \<le> maxRetries then
        (case doRequest attempt of
           Inr response \<Rightarrow>
             \<lparr>sent_result = Inr (extractText response), sent_delays = delays,
              sent_requests = attempt + 1\<rparr>
         | Inl err \<Rightarrow>
             if isRateLimitError err \<and> attempt < maxRetries then
               (if cancelled attempt
                then \<lparr>sent_result = Inl ContextDone, sent_delays = delays,
                      sent_requests = attempt + 1\<rparr>
                else SendMessage_loop doRequest cancelled (attempt + 1) (Some err)
                       (delays @ [baseRetryDelay * 2 ^ attempt]))
             else if \<not> isRateLimitError err then
               \<lparr>sent_result = Inl err, sent_delays = delays, sent_requests = attempt + 1\<rparr>
             else SendMessage_loop doRequest cancelled (attempt + 1) (Some err) delays)
      else
        \<lparr>sent_result =
           Inl (Errorf ''max retries exceeded''
                  (case lastErr of Some err \<Rightarrow> err | None \<Rightarrow> NilError)),
         sent_delays = delays, sent_requests = attempt\<rparr>)"
  by pat_completeness auto
termination
  by (relation "measure (\<lambda>(doRequest, cancelled, attempt, lastErr, delays).
        Suc maxRetries - attempt)") auto

declare SendMessage_loop.simps [simp del]

definition SendMessage :: "backend \<Rightarrow> canceller \<Rightarrow> sendOutcome" where
  "SendMessage doRequest cancelled = SendMessage_loop doRequest cancelled 0 None []"

text \<open>
  \<open>rateLimited doRequest k\<close>: attempt \<open>k\<close> ends in a rate-limit failure.
  \<open>backoff k\<close>: the waits made before attempt \<open>k\<close> when every earlier attempt
  ended so.
\<close>

definition rateLimited :: "backend \<Rightarrow> nat \<Rightarrow> bool" where
  "rateLimited doRequest k =
     (case doRequest k of Inl err \<Rightarrow> isRateLimitError err | Inr _ \<Rightarrow> False)"

definition backoff :: "nat \<Rightarrow> nat list" where
  "backoff k = map (\<lambda>attempt. baseRetryDelay * 2 ^ attempt) [0..<k]"

section \<open>Vote parsing (agent.go)\<close>

subsection \<open>strings.Index, strings.LastIndex\<close>

text \<open>Byte offsets, \<open>-1\<close> when the substring does not occur, as in Go.\<close>

fun Index :: "string \<Rightarrow> string \<Rightarrow> int" where
  "Index [] substr = (if substr = [] then 0 else -1)"
| "Index (c # cs) substr =
     (if prefix substr (c # cs) then 0
      else (let r = Index cs substr in if r = -1 then -1 else r + 1))"

fun LastIndex :: "string \<Rightarrow> string \<Rightarrow> int" where
  "LastIndex [] substr = (if substr = [] then 0 else -1)"
| "LastIndex (c # cs) substr =
     (let r = LastIndex cs substr in
      if r \<noteq> -1 then r + 1 else if prefix substr (c # cs) then 0 else -1)"

subsection \<open>The code-block pattern\<close>

text \<open>
  \<open>extractJSON\<close> first applies the regular expression
  \<^verbatim>\<open>```(?:json)?\s*\n?([\s\S]*?)\n?```\<close> with \<open>FindStringSubmatch\<close>, which
  returns the leftmost match and, among the matches starting there, the one a
  backtracking matcher finds first. Read off the pattern:
  \<^item> the match starts at the first occurrence of three backquotes (every later start
    needs a closing fence that the first start could use as well);
  \<^item> \<open>(?:json)?\<close> is greedy and takes the four letters when they follow;
  \<^item> \<open>\s*\<close> is greedy and takes every following character of
    \<open>[\t\n\f\r ]\<close>, after which \<open>\n?\<close> has nothing left to take;
  \<^item> the group \<open>([\s\S]*?)\<close> is lazy: it ends at the first position from which
    \<open>\n?```\<close> matches, which is just before the next three backquotes, or one
    character earlier when that character is a newline;
  \<^item> the letters and white space skipped hold no backquote, so giving some of them
    back never makes a match possible that was not: without a later fence there is no
    match at all.
  \<open>afterFence\<close> is the text that follows the first fence, \<open>beforeFence\<close> the text
  that precedes it, and \<open>codeBlockSubmatch\<close> is \<open>matches[1]\<close> when the pattern
  matches.
\<close>

definition fence :: string where
  "fence = [CHR 0x60, CHR 0x60, CHR 0x60]"

definition isSpace :: "char \<Rightarrow> bool" where
  "isSpace c = (c = CHR 0x09 \<or> c = CHR 0x0A \<or> c = CHR 0x0C \<or> c = CHR 0x0D \<or> c = CHR 0x20)"

fun afterFence :: "string \<Rightarrow> string option" where
  "afterFence [] = None"
| "afterFence (c # cs) =
     (if prefix fence (c # cs) then Some (drop 3 (c # cs)) else afterFence cs)"

fun beforeFence :: "string \<Rightarrow> string option" where
  "beforeFence [] = None"
| "beforeFence (c # cs) =
     (if prefix fence (c # cs) then Some []
      else (case beforeFence cs of None \<Rightarrow> None | Some body \<Rightarrow> Some (c # body)))"

text \<open>What \<open>(?:json)?\s*\<close> leaves of the text after the opening fence.\<close>

definition unlabel :: "string \<Rightarrow> string" where
  "unlabel opened =
     dropWhile isSpace (if prefix ''json'' opened then drop 4 opened else opened)"

definition codeBlockSubmatch :: "string \<Rightarrow> string option" where
  "codeBlockSubmatch s =
     (case afterFence s of
        None \<Rightarrow> None
      | Some opened \<Rightarrow>
          (case beforeFence (unlabel opened) of
             None \<Rightarrow> None
           | Some body \<Rightarrow>
               Some (if body \<noteq> [] \<and> last body = CHR 0x0A then butlast body else body)))"

subsection \<open>extractJSON and parseVote\<close>

definition extractJSON :: "string \<Rightarrow> string" where
  "extractJSON s0 =
     (let s = (case codeBlockSubmatch s0 of Some inner \<Rightarrow> inner | None \<Rightarrow> s0);
          start = Index s ''{'';
          end' = LastIndex s ''}''
      in if start = -1 \<or> end' = -1 \<or> end' \<le> start then []
         else take (nat (end' + 1 - start)) (drop (nat start) s))"

text \<open>The span from the first \<open>{\<close> to the last \<open>}\<close>, the second half of \<open>extractJSON\<close>.\<close>

definition braceSpan :: "string \<Rightarrow> string" where
  "braceSpan s =
     (let start = Index s ''{''; end' = LastIndex s ''}''
      in if start = -1 \<or> end' = -1 \<or> end' \<le> start then []
         else take (nat (end' + 1 - start)) (drop (nat start) s))"

record voteResponse =
  respRankings :: "int list"
  respReasoning :: string

text \<open>
  \<open>json.Unmarshal\<close> into a \<open>voteResponse\<close> belongs to the standard library; it is
  a parameter of the model, and every statement below holds for each decoder.
\<close>

type_synonym decoder = "string \<Rightarrow> error + voteResponse"

definition parseVote :: "decoder \<Rightarrow> Agent \<Rightarrow> string \<Rightarrow> error + Vote" where
  "parseVote unmarshal a response =
     (let jsonStr = extractJSON response in
      if jsonStr = [] then Inl NoJSONFound
      else
        (case unmarshal jsonStr of
           Inl err \<Rightarrow> Inl (Errorf ''failed to parse vote JSON'' err)
         | Inr voteResp \<Rightarrow>
             if ID a \<in> set (respRankings voteResp) then Inl (SelfVote (ID a))
             else
               (case find (\<lambda>ranking. ranking < 1 \<or> ranking > Total a)
                       (respRankings voteResp) of
                  Some ranking \<Rightarrow> Inl (InvalidAgentID ranking)
                | None \<Rightarrow>
                    Inr \<lparr>VoterID = ID a, Rankings = respRankings voteResp,
                         Reasoning = respReasoning voteResp\<rparr>)))"

section \<open>The vote phase (agent.go, vote.go)\<close>

text \<open>
  \<open>Agent.Vote\<close> builds its request from the agent and its three arguments alone
  (\<open>votingPrompt\<close>, \<open>formatVotingRequest\<close>), so a call is identified by these. The
  world outside is a function from the call and the number of times it was made before
  to what the backend does during that exchange; this covers every interleaving of the
  goroutines, since calls of different agents differ.
\<close>

record voteCall =
  call_agent :: Agent
  call_task :: string
  call_solutions :: "Solution list"
  call_critiques :: "Critique list"

type_synonym remote = "voteCall \<Rightarrow> nat \<Rightarrow> backend \<times> canceller"

definition Agent_Vote ::
  "decoder \<Rightarrow> remote \<Rightarrow> nat \<Rightarrow> Agent \<Rightarrow> string \<Rightarrow> Solution list \<Rightarrow> Critique list
     \<Rightarrow> error + Vote" where
  "Agent_Vote unmarshal world k a task solutions critiques =
     (let exchange = world \<lparr>call_agent = a, call_task = task, call_solutions = solutions,
                            call_critiques = critiques\<rparr> k
      in case sent_result (SendMessage (fst exchange) (snd exchange)) of
           Inl err \<Rightarrow> Inl (Errorf ''failed to generate vote'' err)
         | Inr response \<Rightarrow> parseVote unmarshal a response)"

text \<open>The call an agent makes in the vote phase of a session.\<close>

definition callOf :: "Session \<Rightarrow> Agent \<Rightarrow> voteCall" where
  "callOf s a = \<lparr>call_agent = a, call_task = Task s, call_solutions = Solutions s,
                 call_critiques = Critiques s\<rparr>"

text \<open>
  The body of one goroutine of \<open>Council.Vote\<close>: the vote it appends, the calls of
  \<open>Agent.Vote\<close> it made, and the error it sends to \<open>errChan\<close>, if any.
\<close>

record ballot =
  cast :: Vote
  calls :: "voteCall list"
  warning :: "error option"

definition voteWorker :: "decoder \<Rightarrow> remote \<Rightarrow> Session \<Rightarrow> Agent \<Rightarrow> ballot" where
  "voteWorker unmarshal world s a =
     (let call = \<lparr>call_agent = a, call_task = Task s, call_solutions = Solutions s,
                  call_critiques = Critiques s\<rparr>
      in case Agent_Vote unmarshal world 0 a (Task s) (Solutions s) (Critiques s) of
           Inr vote \<Rightarrow> \<lparr>cast = vote, calls = [call], warning = None\<rparr>
         | Inl _ \<Rightarrow>
             (case Agent_Vote unmarshal world 1 a (Task s) (Solutions s) (Critiques s) of
                Inr vote \<Rightarrow> \<lparr>cast = vote, calls = [call, call], warning = None\<rparr>
              | Inl err \<Rightarrow>
                  \<lparr>cast = \<lparr>VoterID = ID a, Rankings = [],
                            Reasoning = ''Vote failed to parse''\<rparr>,
                   calls = [call, call],
                   warning = Some (VoteFailedAfterRetry (ID a) err)\<rparr>))"

text \<open>
  \<open>Council.Vote\<close>: the ballots are appended under the mutex in the order the
  goroutines finish and then sorted by \<open>VoterID\<close>; the model appends them in the order
  of the agents, which the sort makes immaterial for agents with different IDs. The
  returned error is \<open>nil\<close> on the only return path.
\<close>

record voteRun =
  vote_err :: "error option"
  vote_council :: Council
  vote_warnings :: "error list"
  vote_calls :: "voteCall list"

definition Council_Vote :: "decoder \<Rightarrow> remote \<Rightarrow> Council \<Rightarrow> voteRun" where
  "Council_Vote unmarshal world c =
     (let s = session c;
          ballots = map (voteWorker unmarshal world s) (agents c);
          votes = sort_key VoterID (Votes s @ map cast ballots)
      in \<lparr>vote_err = None,
          vote_council = c\<lparr>session := s\<lparr>Votes := votes\<rparr>\<rparr>,
          vote_warnings = List.map_filter warning ballots,
          vote_calls = concat (map calls ballots)\<rparr>)"

text \<open>The part of \<open>Council.Run\<close> from the vote phase on.\<close>

definition voteAndTally :: "decoder \<Rightarrow> remote \<Rightarrow> Council \<Rightarrow> error + Council" where
  "voteAndTally unmarshal world c =
     (let run = Council_Vote unmarshal world c in
      case vote_err run of
        Some err \<Rightarrow> Inl (Errorf ''voting phase failed'' err)
      | None \<Rightarrow> Inr (Tally (vote_council run)))"

section \<open>Sample inputs\<close>

text \<open>
  Two vote payloads with the value \<open>json.Unmarshal\<close> gives for each, a backend that
  answers every exchange with the same text, one that throttles every attempt, one whose
  answer has no text segment, and the votes of two three-agent deliberations.
\<close>

definition sampleJSON :: string where
  \<open>sampleJSON = ''{"rankings":[2,3,2,3],"reasoning":"r"}''\<close>

definition selfRangeJSON :: string where
  \<open>selfRangeJSON = ''{"rankings":[7,2],"reasoning":"r"}''\<close>

definition sampleUnmarshal :: decoder where
  "sampleUnmarshal jsonStr =
     (if jsonStr = sampleJSON then Inr \<lparr>respRankings = [2, 3, 2, 3], respReasoning = ''r''\<rparr>
      else if jsonStr = selfRangeJSON then Inr \<lparr>respRankings = [7, 2], respReasoning = ''r''\<rparr>
      else Inl (LibraryError ''invalid character''))"

definition textReply :: "string \<Rightarrow> backend" where
  "textReply t = (\<lambda>attempt. Inr \<lparr>Content = [\<lparr>Type = ''text'', Text = t\<rparr>]\<rparr>)"

definition sameReply :: "string \<Rightarrow> remote" where
  "sameReply t = (\<lambda>call k. (textReply t, \<lambda>attempt. False))"

definition withVotes :: "Council \<Rightarrow> Vote list \<Rightarrow> Council" where
  "withVotes c votes = c\<lparr>session := (session c)\<lparr>Votes := votes\<rparr>\<rparr>"

definition tieVotes :: "Vote list" where
  "tieVotes = [\<lparr>VoterID = 1, Rankings = [2, 3], Reasoning = []\<rparr>,
               \<lparr>VoterID = 2, Rankings = [3, 1], Reasoning = []\<rparr>,
               \<lparr>VoterID = 3, Rankings = [1, 2], Reasoning = []\<rparr>]"

definition winVotes :: "Vote list" where
  "winVotes = [\<lparr>VoterID = 1, Rankings = [2, 3], Reasoning = []\<rparr>,
               \<lparr>VoterID = 2, Rankings = [3, 1], Reasoning = []\<rparr>,
               \<lparr>VoterID = 3, Rankings = [2, 1], Reasoning = []\<rparr>]"

definition alwaysThrottled :: backend where
  "alwaysThrottled = (\<lambda>attempt. Inl (APIError 429 ''rate_limit_error'' ''slow down''))"

definition toolOnlyReply :: backend where
  "toolOnlyReply = (\<lambda>attempt. Inr \<lparr>Content = [\<lparr>Type = ''tool_use'', Text = ''x''\<rparr>]\<rparr>)"

section \<open>The tally\<close>

lemma scoreOf_addPoints:
  "scoreOf (addPoints a p sc) b = (if b = a then scoreOf sc a + p else scoreOf sc b)"
  by (simp add: scoreOf_def addPoints_def update_conv')

lemma dom_addPoints: "dom (map_of (addPoints a p sc)) = insert a (dom (map_of sc))"
  by (simp add: addPoints_def update_conv')

lemma pointsFrom_Nil: "pointsFrom n i [] a = 0"
  by (simp add: pointsFrom_def)

lemma pointsFrom_Cons:
  "pointsFrom n i (r # rs) a =
     (if r = a then positionPoints n i else 0) + pointsFrom n (Suc i) rs a"
proof -
  have "[0..<length (r # rs)] = 0 # map Suc [0..<length rs]"
    by (simp add: upt_conv_Cons map_Suc_upt del: upt_Suc)
  then have "pointsFrom n i (r # rs) a =
      (if r = a then positionPoints n i else 0) +
      (\<Sum>j\<leftarrow>[0..<length rs]. if rs ! j = a then positionPoints n (i + Suc j) else 0)"
    unfolding pointsFrom_def by (simp add: comp_def del: upt_Suc)
  moreover have "\<And>j. i + Suc j = Suc i + j" by simp
  ultimately show ?thesis
    unfolding pointsFrom_def by presburger
qed

lemma scoreOf_tallyRankings:
  "scoreOf (tallyRankings n i rs sc) a = scoreOf sc a + pointsFrom n i rs a"
proof (induction rs arbitrary: i sc)
  case Nil
  show ?case by (simp add: pointsFrom_Nil)
next
  case (Cons r rs)
  show ?case
    by (simp add: Cons.IH pointsFrom_Cons scoreOf_addPoints positionPoints_def Let_def)
qed

lemma dom_tallyRankings_mono:
  "dom (map_of sc) \<subseteq> dom (map_of (tallyRankings n i rs sc))"
proof (induction rs arbitrary: i sc)
  case Nil
  show ?case by simp
next
  case (Cons r rs)
  have "dom (map_of sc) \<subseteq> dom (map_of (if n - 1 - int i > 0 then addPoints r (n - 1 - int i) sc else sc))"
    by (auto simp: dom_addPoints)
  also have "\<dots> \<subseteq> dom (map_of (tallyRankings n (Suc i) rs (if n - 1 - int i > 0 then addPoints r (n - 1 - int i) sc else sc)))"
    by (rule Cons.IH)
  finally show ?case by (simp add: Let_def)
qed

lemma scoreOf_tallyVotes:
  "scoreOf (tallyVotes n votes sc) a = scoreOf sc a + expectedScore n votes a"
  unfolding tallyVotes_def expectedScore_def
  by (induction votes arbitrary: sc) (simp_all add: scoreOf_tallyRankings)

lemma dom_tallyVotes_mono: "dom (map_of sc) \<subseteq> dom (map_of (tallyVotes n votes sc))"
  unfolding tallyVotes_def
proof (induction votes arbitrary: sc)
  case Nil
  show ?case by simp
next
  case (Cons v votes)
  have "dom (map_of sc) \<subseteq> dom (map_of (tallyRankings n 0 (Rankings v) sc))"
    by (rule dom_tallyRankings_mono)
  also have "\<dots> \<subseteq> dom (map_of (fold (\<lambda>vote. tallyRankings n 0 (Rankings vote)) votes (tallyRankings n 0 (Rankings v) sc)))"
    by (rule Cons.IH)
  finally show ?case by simp
qed

lemma map_of_seedScores:
  "map_of (seedScores ags sc) a = (if a \<in> ID ` set ags then Some 0 else map_of sc a)"
  unfolding seedScores_def
  by (induction ags arbitrary: sc) (auto simp: update_conv')

lemma map_of_tallied:
  assumes "map_of sc a = Some v"
  shows "map_of (tallyVotes n votes sc) a = Some (v + expectedScore n votes a)"
proof -
  have "a \<in> dom (map_of (tallyVotes n votes sc))"
    using assms dom_tallyVotes_mono [of sc n votes] by auto
  then obtain w where w: "map_of (tallyVotes n votes sc) a = Some w" by auto
  have "scoreOf (tallyVotes n votes sc) a = scoreOf sc a + expectedScore n votes a"
    by (rule scoreOf_tallyVotes)
  with w assms show ?thesis by (simp add: scoreOf_def)
qed

lemma Scores_Tally:
  "Scores (session (Tally c)) =
     tallyVotes (int (length (agents c))) (Votes (session c))
       (seedScores (agents c) (Scores (session c)))"
  by (simp add: Tally_def Let_def)

lemma agents_New: "agents (New task N) = map (\<lambda>i. \<lparr>ID = i, Total = N\<rparr>) [1..N]"
  by (simp add: New_def)

lemma length_agents_New: "0 \<le> N \<Longrightarrow> int (length (agents (New task N))) = N"
  by (simp add: New_def)

lemma ID_agents_New: "ID ` set (agents (New task N)) = {1..N}"
  by (auto simp: New_def image_iff)

text \<open>
  Claim C1. For a deliberation with \<open>N\<close> agents whose score table starts empty,
  seeding puts every agentID of \<open>[1, N]\<close> at 0, and after \<open>Tally\<close> the score of
  such an agent is the sum, over all votes and all positions \<open>i\<close> that name it, of
  \<open>N - 1 - i\<close> points where that is positive and of 0 otherwise; a position at or
  past \<open>N - 1\<close> leaves the table as it is.
\<close>

theorem Tally_scores:
  assumes "agents c = agents (New task N)" and "Scores (session c) = []"
    and "1 \<le> a" and "a \<le> N"
  shows "map_of (seedScores (agents c) (Scores (session c))) a = Some 0
       \<and> map_of (Scores (session (Tally c))) a = Some (expectedScore N (Votes (session c)) a)
       \<and> (\<forall>i sc agentID. N - 1 \<le> int i \<longrightarrow> tallyRankings N i [agentID] sc = sc)"
proof -
  have seeded: "map_of (seedScores (agents c) (Scores (session c))) a = Some 0"
    using assms by (simp add: map_of_seedScores ID_agents_New)
  have len: "int (length (agents c)) = N"
    using assms by (simp add: length_agents_New)
  have "map_of (Scores (session (Tally c))) a = Some (0 + expectedScore N (Votes (session c)) a)"
    unfolding Scores_Tally len by (rule map_of_tallied [OF seeded])
  with seeded show ?thesis by simp
qed

lemma distinct_addPoints: "distinct (map fst sc) \<Longrightarrow> distinct (map fst (addPoints a p sc))"
  by (simp add: addPoints_def distinct_update)

lemma distinct_tallyRankings:
  "distinct (map fst sc) \<Longrightarrow> distinct (map fst (tallyRankings n i rs sc))"
  by (induction rs arbitrary: i sc) (simp_all add: Let_def distinct_addPoints)

lemma distinct_tallyVotes:
  "distinct (map fst sc) \<Longrightarrow> distinct (map fst (tallyVotes n votes sc))"
  unfolding tallyVotes_def
  by (induction votes arbitrary: sc) (simp_all add: distinct_tallyRankings)

lemma distinct_seedScores:
  "distinct (map fst sc) \<Longrightarrow> distinct (map fst (seedScores ags sc))"
  unfolding seedScores_def
  by (induction ags arbitrary: sc) (simp_all add: distinct_update)

lemma Max_insert_max:
  "finite S \<Longrightarrow> Max (insert (max a b) S) = Max (insert (a::int) (insert b S))"
  by (cases "S = {}") (auto simp: max_def)

lemma fold_max_score:
  "fold (\<lambda>entry m. if snd entry > m then snd entry else m) (sc :: scores) m0 =
     Max (insert m0 (snd ` set sc))"
proof (induction sc arbitrary: m0)
  case Nil
  show ?case by simp
next
  case (Cons e sc)
  have "(if m0 < snd e then snd e else m0) = max m0 (snd e)" by (auto simp: max_def)
  then show ?case by (simp add: Cons.IH Max_insert_max)
qed

lemma maxScoreOf_Max: "maxScoreOf sc = Max (insert 0 (snd ` set sc))"
  by (simp add: maxScoreOf_def fold_max_score)

lemma scoreOf_entry: "distinct (map fst sc) \<Longrightarrow> (k, v) \<in> set sc \<Longrightarrow> scoreOf sc k = v"
  by (simp add: scoreOf_def)

lemma entry_scoreOf: "k \<in> fst ` set sc \<Longrightarrow> (k, scoreOf sc k) \<in> set sc"
proof -
  assume "k \<in> fst ` set sc"
  then obtain v where "map_of sc k = Some v"
    by (metis domD dom_map_of_conv_image_fst)
  then show ?thesis by (simp add: scoreOf_def map_of_SomeD)
qed

lemma maxScoreOf_top:
  assumes d: "distinct (map fst sc)" and nn: "\<forall>k. 0 \<le> scoreOf sc k" and a: "a \<in> fst ` set sc"
  shows "a \<in> topAgents sc \<longleftrightarrow> scoreOf sc a = maxScoreOf sc"
proof -
  have ne: "snd ` set sc \<noteq> {}" using a by auto
  have vals: "snd ` set sc = scoreOf sc ` fst ` set sc"
  proof (intro set_eqI iffI)
    fix v assume "v \<in> snd ` set sc"
    then obtain k where "(k, v) \<in> set sc" by auto
    then show "v \<in> scoreOf sc ` fst ` set sc"
      using scoreOf_entry [OF d] by (metis fst_conv image_eqI)
  next
    fix v assume "v \<in> scoreOf sc ` fst ` set sc"
    then obtain k where "k \<in> fst ` set sc" "v = scoreOf sc k" by auto
    then show "v \<in> snd ` set sc" using entry_scoreOf [of k sc] by (metis image_eqI snd_conv)
  qed
  have ge0: "0 \<le> Max (snd ` set sc)"
    using nn a ne vals by (metis Max_ge_iff finite_imageI finite_set image_eqI)
  have M: "maxScoreOf sc = Max (snd ` set sc)"
    using ne ge0 by (simp add: maxScoreOf_Max max_def)
  show ?thesis
  proof
    assume "a \<in> topAgents sc"
    then have up: "\<forall>b \<in> fst ` set sc. scoreOf sc b \<le> scoreOf sc a" by (simp add: topAgents_def)
    have "scoreOf sc a \<in> snd ` set sc" using a vals by auto
    moreover have "\<forall>v \<in> snd ` set sc. v \<le> scoreOf sc a" using up vals by auto
    ultimately have "Max (snd ` set sc) = scoreOf sc a"
      by (intro Max_eqI) auto
    then show "scoreOf sc a = maxScoreOf sc" by (simp add: M)
  next
    assume eq: "scoreOf sc a = maxScoreOf sc"
    have "\<forall>b \<in> fst ` set sc. scoreOf sc b \<le> scoreOf sc a"
    proof
      fix b assume "b \<in> fst ` set sc"
      then have "scoreOf sc b \<in> snd ` set sc" using vals by auto
      then have "scoreOf sc b \<le> Max (snd ` set sc)" by simp
      then show "scoreOf sc b \<le> scoreOf sc a" by (simp add: eq M)
    qed
    then show "a \<in> topAgents sc" using a by (simp add: topAgents_def)
  qed
qed

lemma winnersOf_top:
  assumes d: "distinct (map fst sc)" and nn: "\<forall>k. 0 \<le> scoreOf sc k"
  shows "winnersOf sc = sorted_list_of_set (topAgents sc)"
proof -
  let ?ws = "map fst (filter (\<lambda>entry. snd entry = maxScoreOf sc) sc)"
  have dist: "distinct ?ws" using d by (simp add: distinct_map_filter)
  have "set ?ws = topAgents sc"
  proof (intro set_eqI iffI)
    fix a assume "a \<in> set ?ws"
    then obtain v where e: "(a, v) \<in> set sc" and v: "v = maxScoreOf sc" by auto
    have a: "a \<in> fst ` set sc" using e by (metis fst_conv image_eqI)
    have "scoreOf sc a = maxScoreOf sc" using scoreOf_entry [OF d e] v by simp
    then show "a \<in> topAgents sc" using maxScoreOf_top [OF d nn a] by simp
  next
    fix a assume t: "a \<in> topAgents sc"
    then have a: "a \<in> fst ` set sc" by (simp add: topAgents_def)
    have "scoreOf sc a = maxScoreOf sc" using maxScoreOf_top [OF d nn a] t by simp
    then have "(a, maxScoreOf sc) \<in> set sc" using entry_scoreOf [OF a] by simp
    then show "a \<in> set ?ws" by force
  qed
  moreover have "sorted (sort ?ws)" "distinct (sort ?ws)" "set (sort ?ws) = set ?ws"
    using dist by simp_all
  ultimately have "sort ?ws = sorted_list_of_set (topAgents sc)"
    by (metis sorted_list_of_set.idem_if_sorted_distinct)
  then show ?thesis by (simp add: winnersOf_def)
qed

text \<open>The winners do not depend on the order in which the map is ranged over.\<close>

lemma winnersOf_perm: "mset sc = mset sc' \<Longrightarrow> winnersOf sc = winnersOf sc'"
proof -
  assume m: "mset sc = mset sc'"
  then have s: "set sc = set sc'" by (metis set_mset_mset)
  then have M: "maxScoreOf sc = maxScoreOf sc'" by (simp add: maxScoreOf_Max)
  have "mset (map fst (filter (\<lambda>entry. snd entry = maxScoreOf sc) sc)) =
        mset (map fst (filter (\<lambda>entry. snd entry = maxScoreOf sc) sc'))"
    using m by (metis mset_filter mset_map)
  then show ?thesis
    unfolding winnersOf_def M [symmetric] by (metis properties_for_sort sorted_sort mset_sort)
qed

lemma scoreOf_seedScores_Nil: "scoreOf (seedScores ags []) a = 0"
  by (simp add: scoreOf_def map_of_seedScores)

lemma positionPoints_nonneg: "0 \<le> positionPoints n i"
  by (simp add: positionPoints_def)

lemma pointsFrom_nonneg: "0 \<le> pointsFrom n i rs a"
  unfolding pointsFrom_def by (rule sum_list_nonneg) (auto simp: positionPoints_nonneg)

lemma expectedScore_nonneg: "0 \<le> expectedScore n votes a"
  unfolding expectedScore_def by (rule sum_list_nonneg) (auto simp: pointsFrom_nonneg)

lemma Tally_fresh_scores:
  assumes "Scores (session c) = []"
  shows "distinct (map fst (Scores (session (Tally c))))"
    and "scoreOf (Scores (session (Tally c))) a =
         expectedScore (int (length (agents c))) (Votes (session c)) a"
proof -
  show "distinct (map fst (Scores (session (Tally c))))"
    unfolding Scores_Tally assms
    by (intro distinct_tallyVotes distinct_seedScores) simp
  show "scoreOf (Scores (session (Tally c))) a =
         expectedScore (int (length (agents c))) (Votes (session c)) a"
    unfolding Scores_Tally assms
    by (simp add: scoreOf_tallyVotes scoreOf_seedScores_Nil)
qed

lemma Tally_outcome:
  "WinnerID (session (Tally c)) =
     (if length (winnersOf (Scores (session (Tally c)))) = 1
      then Some (winnersOf (Scores (session (Tally c))) ! 0) else None)"
  "IsTie (session (Tally c)) = (length (winnersOf (Scores (session (Tally c)))) \<noteq> 1)"
  "TiedAgents (session (Tally c)) =
     (if length (winnersOf (Scores (session (Tally c)))) = 1 then []
      else winnersOf (Scores (session (Tally c))))"
  by (simp_all add: Tally_def Let_def)

text \<open>
  Claim C2. After \<open>Tally\<close> on a score table that starts empty: when exactly one
  agentID \<open>w\<close> attains the maximum score, \<open>WinnerID\<close> is \<open>w\<close>, \<open>IsTie\<close> is
  false and \<open>TiedAgents\<close> is empty; when two or more do, \<open>WinnerID\<close> is unset,
  \<open>IsTie\<close> is true and \<open>TiedAgents\<close> is the set of the maximum-scoring agentIDs in
  ascending order.
\<close>

theorem Tally_winner_or_tie:
  assumes "Scores (session c) = []"
  shows "(topAgents (Scores (session (Tally c))) = {w} \<longrightarrow>
            WinnerID (session (Tally c)) = Some w \<and> \<not> IsTie (session (Tally c)) \<and>
            TiedAgents (session (Tally c)) = [])
       \<and> (2 \<le> card (topAgents (Scores (session (Tally c)))) \<longrightarrow>
            WinnerID (session (Tally c)) = None \<and> IsTie (session (Tally c)) \<and>
            TiedAgents (session (Tally c)) =
              sorted_list_of_set (topAgents (Scores (session (Tally c)))))"
proof -
  let ?sc = "Scores (session (Tally c))"
  have nn: "\<forall>k. 0 \<le> scoreOf ?sc k"
    by (simp add: Tally_fresh_scores(2) [OF assms] expectedScore_nonneg)
  have ws: "winnersOf ?sc = sorted_list_of_set (topAgents ?sc)"
    by (rule winnersOf_top [OF Tally_fresh_scores(1) [OF assms] nn])
  have fin: "finite (topAgents ?sc)" by (simp add: topAgents_def)
  have len: "length (winnersOf ?sc) = card (topAgents ?sc)"
    by (simp add: ws)
  have one: "topAgents ?sc = {w} \<Longrightarrow> winnersOf ?sc = [w]"
    by (simp add: ws)
  show ?thesis
  proof (intro conjI impI)
    assume t: "topAgents ?sc = {w}"
    show "WinnerID (session (Tally c)) = Some w"
      by (simp add: Tally_outcome(1) one [OF t])
    show "\<not> IsTie (session (Tally c))"
      by (simp add: Tally_outcome(2) one [OF t])
    show "TiedAgents (session (Tally c)) = []"
      by (simp add: Tally_outcome(3) one [OF t])
  next
    assume t: "2 \<le> card (topAgents ?sc)"
    then have ne: "length (winnersOf ?sc) \<noteq> 1" using len by simp
    show "WinnerID (session (Tally c)) = None"
      using ne by (simp add: Tally_outcome(1))
    show "IsTie (session (Tally c))"
      using ne by (simp add: Tally_outcome(2))
    show "TiedAgents (session (Tally c)) = sorted_list_of_set (topAgents ?sc)"
      using ne ws by (simp add: Tally_outcome(3))
  qed
qed

section \<open>The recorded votes\<close>

lemma parseVote_valid:
  assumes "parseVote unmarshal a response = Inr v"
  shows "VoterID v = ID a" and "ID a \<notin> set (Rankings v)"
    and "\<forall>r \<in> set (Rankings v). 1 \<le> r \<and> r \<le> Total a"
proof -
  from assms obtain voteResp where
    ok: "unmarshal (extractJSON response) = Inr voteResp"
    and self: "ID a \<notin> set (respRankings voteResp)"
    and range: "find (\<lambda>ranking. ranking < 1 \<or> ranking > Total a) (respRankings voteResp) = None"
    and v: "v = \<lparr>VoterID = ID a, Rankings = respRankings voteResp,
                 Reasoning = respReasoning voteResp\<rparr>"
    by (auto simp: parseVote_def Let_def split: if_splits sum.splits option.splits)
  show "VoterID v = ID a" by (simp add: v)
  show "ID a \<notin> set (Rankings v)" using self by (simp add: v)
  show "\<forall>r \<in> set (Rankings v). 1 \<le> r \<and> r \<le> Total a"
    using range by (auto simp: v find_None_iff)
qed

lemma Agent_Vote_valid:
  assumes "Agent_Vote unmarshal world k a task solutions critiques = Inr v"
  shows "VoterID v = ID a \<and> ID a \<notin> set (Rankings v)
       \<and> (\<forall>r \<in> set (Rankings v). 1 \<le> r \<and> r \<le> Total a)"
proof -
  from assms obtain response where "parseVote unmarshal a response = Inr v"
    by (auto simp: Agent_Vote_def Let_def split: sum.splits)
  then show ?thesis using parseVote_valid [of unmarshal a response v] by simp
qed

lemma voteWorker_first:
  assumes "Agent_Vote unmarshal world 0 a (Task s) (Solutions s) (Critiques s) = Inr v"
  shows "voteWorker unmarshal world s a = \<lparr>cast = v, calls = [callOf s a], warning = None\<rparr>"
  using assms by (simp add: voteWorker_def callOf_def Let_def)

lemma voteWorker_retried:
  assumes "Agent_Vote unmarshal world 0 a (Task s) (Solutions s) (Critiques s) = Inl e"
    and "Agent_Vote unmarshal world 1 a (Task s) (Solutions s) (Critiques s) = Inr v"
  shows "voteWorker unmarshal world s a =
         \<lparr>cast = v, calls = [callOf s a, callOf s a], warning = None\<rparr>"
  using assms by (simp add: voteWorker_def callOf_def Let_def)

lemma voteWorker_degraded:
  assumes "Agent_Vote unmarshal world 0 a (Task s) (Solutions s) (Critiques s) = Inl e"
    and "Agent_Vote unmarshal world 1 a (Task s) (Solutions s) (Critiques s) = Inl e'"
  shows "voteWorker unmarshal world s a =
         \<lparr>cast = \<lparr>VoterID = ID a, Rankings = [], Reasoning = ''Vote failed to parse''\<rparr>,
          calls = [callOf s a, callOf s a],
          warning = Some (VoteFailedAfterRetry (ID a) e')\<rparr>"
  using assms by (simp add: voteWorker_def callOf_def Let_def)

lemma voteWorker_valid:
  "VoterID (cast (voteWorker unmarshal world s a)) = ID a
   \<and> ID a \<notin> set (Rankings (cast (voteWorker unmarshal world s a)))
   \<and> (\<forall>r \<in> set (Rankings (cast (voteWorker unmarshal world s a))). 1 \<le> r \<and> r \<le> Total a)"
proof (cases "Agent_Vote unmarshal world 0 a (Task s) (Solutions s) (Critiques s)")
  case (Inr v)
  then show ?thesis using Agent_Vote_valid [OF Inr] by (simp add: voteWorker_first)
next
  case first: (Inl e)
  show ?thesis
  proof (cases "Agent_Vote unmarshal world 1 a (Task s) (Solutions s) (Critiques s)")
    case (Inr v)
    then show ?thesis
      using Agent_Vote_valid [OF Inr] by (simp add: voteWorker_retried [OF first])
  next
    case (Inl e')
    then show ?thesis by (simp add: voteWorker_degraded [OF first])
  qed
qed

lemma Votes_Council_Vote:
  "Votes (session (vote_council (Council_Vote unmarshal world c))) =
     sort_key VoterID (Votes (session c) @
       map (\<lambda>a. cast (voteWorker unmarshal world (session c) a)) (agents c))"
  by (simp add: Council_Vote_def Let_def comp_def)

lemma filter_distinct_key:
  "distinct (map f zs) \<Longrightarrow> k \<in> set zs \<Longrightarrow> filter (\<lambda>x. f k = f x) zs = [k]"
proof (induction zs)
  case Nil
  then show ?case by simp
next
  case (Cons z zs)
  show ?case
  proof (cases "k = z")
    case True
    have "filter (\<lambda>x. f z = f x) zs = []"
      using Cons.prems(1) by (auto simp: filter_empty_conv)
    then show ?thesis using True by simp
  next
    case False
    then have kz: "k \<in> set zs" using Cons.prems(2) by simp
    then have "f k \<in> f ` set zs" by (rule imageI)
    moreover have "f z \<notin> f ` set zs" using Cons.prems(1) by simp
    ultimately have "f k \<noteq> f z" by metis
    then show ?thesis using kz Cons by simp
  qed
qed

text \<open>
  The order in which the goroutines append their votes does not show in the sorted list,
  as long as no two votes have the same voter.
\<close>

lemma votes_order_immaterial:
  assumes "mset xs = mset ys" and "distinct (map VoterID xs)"
  shows "sort_key VoterID xs = sort_key VoterID ys"
proof (rule properties_for_sort_key)
  show "mset (sort_key VoterID ys) = mset xs" using assms(1) by simp
  show "sorted (map VoterID (sort_key VoterID ys))" by simp
  fix k assume k: "k \<in> set (sort_key VoterID ys)"
  have "mset (map VoterID (sort_key VoterID ys)) = mset (map VoterID xs)"
    using assms(1) by simp
  then have d: "distinct (map VoterID (sort_key VoterID ys))"
    using assms(2) mset_eq_imp_distinct_iff by blast
  have "k \<in> set xs" using k assms(1) by (metis set_sort mset_eq_setD)
  then have "filter (\<lambda>x. VoterID k = VoterID x) xs = [k]"
    by (rule filter_distinct_key [OF assms(2)])
  moreover have "filter (\<lambda>x. VoterID k = VoterID x) (sort_key VoterID ys) = [k]"
    by (rule filter_distinct_key [OF d k])
  ultimately show "filter (\<lambda>x. VoterID k = VoterID x) (sort_key VoterID ys) =
      filter (\<lambda>x. VoterID k = VoterID x) xs"
    by simp
qed

lemma agents_Council_Vote:
  "agents (vote_council (Council_Vote unmarshal world c)) = agents c"
  by (simp add: Council_Vote_def Let_def)

lemma Scores_Council_Vote:
  "Scores (session (vote_council (Council_Vote unmarshal world c))) = Scores (session c)"
  by (simp add: Council_Vote_def Let_def)

lemma vote_err_Council_Vote: "vote_err (Council_Vote unmarshal world c) = None"
  by (simp add: Council_Vote_def Let_def)

lemma voteAndTally_returns:
  "voteAndTally unmarshal world c = Inr (Tally (vote_council (Council_Vote unmarshal world c)))"
  by (simp add: voteAndTally_def Let_def vote_err_Council_Vote)

lemma Votes_New: "Votes (session (New task N)) = []"
  by (simp add: New_def)

lemma Scores_New: "Scores (session (New task N)) = []"
  by (simp add: New_def)

lemma Total_agents_New: "a \<in> set (agents (New task N)) \<Longrightarrow> Total a = N \<and> 1 \<le> ID a \<and> ID a \<le> N"
  by (auto simp: New_def)

lemma recorded_valid:
  assumes "v \<in> set (Votes (session (vote_council (Council_Vote unmarshal world (New task N)))))"
  shows "VoterID v \<notin> set (Rankings v) \<and> (\<forall>r \<in> set (Rankings v). 1 \<le> r \<and> r \<le> N)
       \<and> 1 \<le> VoterID v \<and> VoterID v \<le> N"
proof -
  from assms obtain a where a: "a \<in> set (agents (New task N))"
    and v: "v = cast (voteWorker unmarshal world (session (New task N)) a)"
    by (auto simp: Votes_Council_Vote Votes_New)
  show ?thesis
    using voteWorker_valid [of unmarshal world "session (New task N)" a] Total_agents_New [OF a]
    by (simp add: v)
qed

lemma keys_addPoints: "fst ` set (addPoints a p sc) = insert a (fst ` set sc)"
  by (simp add: addPoints_def dom_update)

lemma keys_tallyRankings:
  "fst ` set (tallyRankings n i rs sc) \<subseteq> fst ` set sc \<union> set rs"
proof (induction rs arbitrary: i sc)
  case Nil
  show ?case by simp
next
  case (Cons r rs)
  let ?sc = "if 0 < n - 1 - int i then addPoints r (n - 1 - int i) sc else sc"
  have "fst ` set (tallyRankings n (Suc i) rs ?sc) \<subseteq> fst ` set ?sc \<union> set rs"
    by (rule Cons.IH)
  moreover have "fst ` set ?sc \<subseteq> insert r (fst ` set sc)"
    by (simp add: keys_addPoints subset_insertI)
  ultimately have "fst ` set (tallyRankings n (Suc i) rs ?sc) \<subseteq> fst ` set sc \<union> insert r (set rs)"
    by blast
  then show ?case by (simp add: Let_def)
qed

lemma keys_tallyVotes:
  "fst ` set (tallyVotes n votes sc) \<subseteq> fst ` set sc \<union> (\<Union>v \<in> set votes. set (Rankings v))"
  unfolding tallyVotes_def
proof (induction votes arbitrary: sc)
  case Nil
  show ?case by simp
next
  case (Cons v votes)
  have "fst ` set (fold (\<lambda>vote. tallyRankings n 0 (Rankings vote)) votes
            (tallyRankings n 0 (Rankings v) sc))
        \<subseteq> fst ` set (tallyRankings n 0 (Rankings v) sc) \<union> (\<Union>v \<in> set votes. set (Rankings v))"
    by (rule Cons.IH)
  then show ?case using keys_tallyRankings [of n 0 "Rankings v" sc] by auto
qed

lemma keys_seedScores: "fst ` set (seedScores ags sc) = ID ` set ags \<union> fst ` set sc"
  unfolding seedScores_def
  by (induction ags arbitrary: sc) (auto simp: dom_update)

lemma keys_tallied_exact:
  assumes "\<forall>v \<in> set votes. set (Rankings v) \<subseteq> fst ` set sc"
  shows "fst ` set (tallyVotes n votes sc) = fst ` set sc"
proof
  show "fst ` set (tallyVotes n votes sc) \<subseteq> fst ` set sc"
    using keys_tallyVotes [of n votes sc] assms by auto
  show "fst ` set sc \<subseteq> fst ` set (tallyVotes n votes sc)"
    using dom_tallyVotes_mono [of sc n votes] by (simp add: dom_map_of_conv_image_fst)
qed

lemma sum_list_delta:
  assumes "1 \<le> r" "r \<le> N"
  shows "(\<Sum>a\<leftarrow>[1..N]. if r = a then (p::int) else 0) = p"
proof -
  have "(\<Sum>a\<leftarrow>[1..N]. if r = a then p else 0) = (\<Sum>a\<in>{1..N}. if r = a then p else 0)"
    by (simp add: sum_list_distinct_conv_sum_set)
  also have "\<dots> = p" using assms by simp
  finally show ?thesis .
qed

lemma weight_shift:
  "(\<Sum>j\<leftarrow>[0..<Suc k]. positionPoints n (i + j)) =
     positionPoints n i + (\<Sum>j\<leftarrow>[0..<k]. positionPoints n (Suc i + j))"
proof -
  have "[0..<Suc k] = 0 # map Suc [0..<k]"
    by (simp add: upt_conv_Cons map_Suc_upt del: upt_Suc)
  then have "(\<Sum>j\<leftarrow>[0..<Suc k]. positionPoints n (i + j)) =
      positionPoints n i + (\<Sum>j\<leftarrow>[0..<k]. positionPoints n (i + Suc j))"
    by (simp add: comp_def del: upt_Suc)
  moreover have "\<And>j. i + Suc j = Suc i + j" by simp
  ultimately show ?thesis by presburger
qed

lemma sum_pointsFrom:
  assumes "\<forall>r \<in> set rs. 1 \<le> r \<and> r \<le> N"
  shows "(\<Sum>a\<leftarrow>[1..N]. pointsFrom n i rs a) = (\<Sum>j\<leftarrow>[0..<length rs]. positionPoints n (i + j))"
  using assms
proof (induction rs arbitrary: i)
  case Nil
  show ?case by (simp add: pointsFrom_Nil)
next
  case (Cons r rs)
  have "(\<Sum>a\<leftarrow>[1..N]. pointsFrom n i (r # rs) a) =
        (\<Sum>a\<leftarrow>[1..N]. if r = a then positionPoints n i else 0) +
        (\<Sum>a\<leftarrow>[1..N]. pointsFrom n (Suc i) rs a)"
    by (simp add: pointsFrom_Cons sum_list_addf)
  also have "\<dots> = positionPoints n i + (\<Sum>j\<leftarrow>[0..<length rs]. positionPoints n (Suc i + j))"
    using Cons.prems by (simp add: sum_list_delta Cons.IH)
  also have "\<dots> = (\<Sum>j\<leftarrow>[0..<length (r # rs)]. positionPoints n (i + j))"
    using weight_shift [of n i "length rs"] by simp
  finally show ?case .
qed

lemma sum_expectedScore:
  assumes "\<forall>v \<in> set votes. \<forall>r \<in> set (Rankings v). 1 \<le> r \<and> r \<le> N"
  shows "(\<Sum>a\<leftarrow>[1..N]. expectedScore n votes a) = (\<Sum>v\<leftarrow>votes. voteWeight n v)"
  using assms
proof (induction votes)
  case Nil
  show ?case by (simp add: expectedScore_def)
next
  case (Cons v votes)
  have "(\<Sum>a\<leftarrow>[1..N]. expectedScore n (v # votes) a) =
        (\<Sum>a\<leftarrow>[1..N]. pointsFrom n 0 (Rankings v) a) + (\<Sum>a\<leftarrow>[1..N]. expectedScore n votes a)"
    by (simp add: expectedScore_def sum_list_addf)
  also have "\<dots> = voteWeight n v + (\<Sum>v\<leftarrow>votes. voteWeight n v)"
    using Cons.prems Cons.IH sum_pointsFrom [of "Rankings v" N n 0]
    by (simp add: voteWeight_def)
  finally show ?case by simp
qed

text \<open>
  Claim C6. For \<open>N \<ge> 3\<close>, whatever the backend answers and the decoder returns, the
  vote phase followed by \<open>Tally\<close> returns, and the score table then has exactly the
  keys \<open>1..N\<close>, each once (\<open>N\<close> entries), and no negative value.
\<close>

theorem Scores_shape:
  assumes "3 \<le> N"
  shows "\<exists>c'. voteAndTally unmarshal world (New task N) = Inr c'
           \<and> fst ` set (Scores (session c')) = {1..N}
           \<and> distinct (map fst (Scores (session c')))
           \<and> length (Scores (session c')) = nat N
           \<and> (\<forall>entry \<in> set (Scores (session c')). 0 \<le> snd entry)"
proof -
  let ?c = "vote_council (Council_Vote unmarshal world (New task N))"
  let ?sc = "Scores (session (Tally ?c))"
  have fresh: "Scores (session ?c) = []" by (simp add: Scores_Council_Vote Scores_New)
  have ags: "agents ?c = agents (New task N)" by (rule agents_Council_Vote)
  have seedkeys: "fst ` set (seedScores (agents ?c) []) = {1..N}"
    by (simp add: keys_seedScores ags ID_agents_New)
  have valid: "\<forall>v \<in> set (Votes (session ?c)). set (Rankings v) \<subseteq> {1..N}"
    using recorded_valid [of _ unmarshal world task N] by auto
  have keys: "fst ` set ?sc = {1..N}"
    unfolding Scores_Tally fresh
    using keys_tallied_exact [of "Votes (session ?c)" "seedScores (agents ?c) []"] valid seedkeys
    by simp
  have d: "distinct (map fst ?sc)" by (rule Tally_fresh_scores(1) [OF fresh])
  have "card (fst ` set ?sc) = length ?sc"
    using distinct_card [OF d] by simp
  then have len: "length ?sc = nat N" using keys by simp
  have nn: "\<forall>entry \<in> set ?sc. 0 \<le> snd entry"
  proof
    fix entry assume e: "entry \<in> set ?sc"
    then have "(fst entry, snd entry) \<in> set ?sc" by simp
    then have "scoreOf ?sc (fst entry) = snd entry" by (rule scoreOf_entry [OF d])
    then show "0 \<le> snd entry"
      using Tally_fresh_scores(2) [OF fresh, of "fst entry"] expectedScore_nonneg by metis
  qed
  show ?thesis
    using keys d len nn by (simp add: voteAndTally_returns)
qed

text \<open>
  Claim C7, as the code has it. For every list of votes the vote phase records, the sum
  of the scores of the agents \<open>1..N\<close> after \<open>Tally\<close> equals the sum over the votes
  and over the positions \<open>i\<close> of their rankings of \<open>max 0 (N - 1 - i)\<close>.
\<close>

theorem score_sum_conserved:
  assumes "0 \<le> N"
  shows "\<exists>c'. voteAndTally unmarshal world (New task N) = Inr c'
           \<and> (\<Sum>a\<leftarrow>[1..N]. scoreOf (Scores (session c')) a) =
             (\<Sum>v\<leftarrow>Votes (session c'). voteWeight N v)"
proof -
  let ?c = "vote_council (Council_Vote unmarshal world (New task N))"
  have fresh: "Scores (session ?c) = []" by (simp add: Scores_Council_Vote Scores_New)
  have len: "int (length (agents ?c)) = N"
    using assms by (simp add: agents_Council_Vote length_agents_New)
  have valid: "\<forall>v \<in> set (Votes (session ?c)). \<forall>r \<in> set (Rankings v). 1 \<le> r \<and> r \<le> N"
    using recorded_valid [of _ unmarshal world task N] by blast
  have votes: "Votes (session (Tally ?c)) = Votes (session ?c)"
    by (simp add: Tally_def Let_def)
  have "(\<Sum>a\<leftarrow>[1..N]. scoreOf (Scores (session (Tally ?c))) a) =
        (\<Sum>a\<leftarrow>[1..N]. expectedScore N (Votes (session ?c)) a)"
    by (simp add: Tally_fresh_scores(2) [OF fresh] len)
  also have "\<dots> = (\<Sum>v\<leftarrow>Votes (session ?c). voteWeight N v)"
    by (rule sum_expectedScore [OF valid])
  finally show ?thesis by (simp add: voteAndTally_returns votes)
qed

section \<open>The retry loop of the gateway\<close>

lemma loop_retry:
  assumes "attempt < maxRetries" "doRequest attempt = Inl err" "isRateLimitError err"
    "\<not> cancelled attempt"
  shows "SendMessage_loop doRequest cancelled attempt lastErr delays =
         SendMessage_loop doRequest cancelled (Suc attempt) (Some err)
           (delays @ [baseRetryDelay * 2 ^ attempt])"
  using assms by (subst SendMessage_loop.simps) simp

lemma loop_fatal:
  assumes "attempt \<le> maxRetries" "doRequest attempt = Inl err" "\<not> isRateLimitError err"
  shows "SendMessage_loop doRequest cancelled attempt lastErr delays =
         \<lparr>sent_result = Inl err, sent_delays = delays, sent_requests = Suc attempt\<rparr>"
  using assms by (subst SendMessage_loop.simps) simp

lemma loop_success:
  assumes "attempt \<le> maxRetries" "doRequest attempt = Inr response"
  shows "SendMessage_loop doRequest cancelled attempt lastErr delays =
         \<lparr>sent_result = Inr (extractText response), sent_delays = delays,
          sent_requests = Suc attempt\<rparr>"
  using assms by (subst SendMessage_loop.simps) simp

lemma loop_cancelled:
  assumes "attempt < maxRetries" "doRequest attempt = Inl err" "isRateLimitError err"
    "cancelled attempt"
  shows "SendMessage_loop doRequest cancelled attempt lastErr delays =
         \<lparr>sent_result = Inl ContextDone, sent_delays = delays, sent_requests = Suc attempt\<rparr>"
  using assms by (subst SendMessage_loop.simps) simp

lemma loop_exhausted:
  assumes "attempt = maxRetries" "doRequest attempt = Inl err" "isRateLimitError err"
  shows "SendMessage_loop doRequest cancelled attempt lastErr delays =
         \<lparr>sent_result = Inl (Errorf ''max retries exceeded'' err), sent_delays = delays,
          sent_requests = Suc attempt\<rparr>"
  using assms
  by (subst SendMessage_loop.simps, simp, subst SendMessage_loop.simps, simp)

lemma loop_prefix:
  assumes "k \<le> maxRetries" "\<forall>j<k. rateLimited doRequest j" "\<forall>j<k. \<not> cancelled j"
  shows "\<exists>lastErr. SendMessage doRequest cancelled =
           SendMessage_loop doRequest cancelled k lastErr (backoff k)"
  using assms
proof (induction k)
  case 0
  show ?case by (auto simp: SendMessage_def backoff_def)
next
  case (Suc k)
  then obtain lastErr where eq: "SendMessage doRequest cancelled =
           SendMessage_loop doRequest cancelled k lastErr (backoff k)"
    by auto
  have "rateLimited doRequest k" using Suc.prems by simp
  then obtain err where err: "doRequest k = Inl err" "isRateLimitError err"
    by (auto simp: rateLimited_def split: sum.splits)
  have "SendMessage_loop doRequest cancelled k lastErr (backoff k) =
        SendMessage_loop doRequest cancelled (Suc k) (Some err) (backoff (Suc k))"
    using loop_retry [of k doRequest err cancelled lastErr "backoff k"] err Suc.prems
    by (simp add: backoff_def)
  with eq show ?case by auto
qed

lemma backoff_values:
  "backoff 0 = []" "backoff (Suc 0) = [1]" "backoff 2 = [1, 2]" "backoff 3 = [1, 2, 4]"
  by (simp_all add: backoff_def baseRetryDelay_def numeral_2_eq_2 numeral_3_eq_3)

text \<open>
  Claim C5. While no wait is cancelled and the first \<open>k \<le> 3\<close> attempts were
  rate-limited (so the waits so far are the first \<open>k\<close> of 1, 2, 4 seconds): a failure
  that is not a rate limit is returned as it is, with no further request; a success is
  returned; and a rate limit at the fourth attempt gives \<open>max retries exceeded\<close>
  wrapping that last error, after four requests and waits of 1, 2 and 4.
\<close>

theorem SendMessage_retry_policy:
  assumes "k \<le> 3" and "\<forall>j<k. rateLimited doRequest j" and "\<forall>j<k. \<not> cancelled j"
  shows "(\<forall>err. doRequest k = Inl err \<and> \<not> isRateLimitError err \<longrightarrow>
            SendMessage doRequest cancelled =
              \<lparr>sent_result = Inl err, sent_delays = take k [1, 2, 4], sent_requests = k + 1\<rparr>)
       \<and> (\<forall>err. k = 3 \<and> doRequest k = Inl err \<and> isRateLimitError err \<longrightarrow>
            SendMessage doRequest cancelled =
              \<lparr>sent_result = Inl (Errorf ''max retries exceeded'' err),
               sent_delays = [1, 2, 4], sent_requests = 4\<rparr>)
       \<and> (\<forall>response. doRequest k = Inr response \<longrightarrow>
            SendMessage doRequest cancelled =
              \<lparr>sent_result = Inr (extractText response), sent_delays = take k [1, 2, 4],
               sent_requests = k + 1\<rparr>)"
proof -
  have k: "k \<le> maxRetries" using assms(1) by (simp add: maxRetries_def)
  obtain lastErr where eq: "SendMessage doRequest cancelled =
      SendMessage_loop doRequest cancelled k lastErr (backoff k)"
    using loop_prefix [OF k assms(2,3)] by auto
  have "k = 0 \<or> k = 1 \<or> k = 2 \<or> k = 3" using assms(1) by arith
  then have b: "backoff k = take k [1, 2, 4]"
    by (auto simp: backoff_values)
  show ?thesis
  proof (intro conjI allI impI)
    fix err assume "doRequest k = Inl err \<and> \<not> isRateLimitError err"
    then show "SendMessage doRequest cancelled =
        \<lparr>sent_result = Inl err, sent_delays = take k [1, 2, 4], sent_requests = k + 1\<rparr>"
      using loop_fatal [OF k, of doRequest err cancelled lastErr "backoff k"] eq b by simp
  next
    fix err assume a: "k = 3 \<and> doRequest k = Inl err \<and> isRateLimitError err"
    then have d: "doRequest 3 = Inl err" and r: "isRateLimitError err" and k3: "k = 3"
      by auto
    have m: "(3::nat) = maxRetries" by (simp add: maxRetries_def)
    have "SendMessage_loop doRequest cancelled 3 lastErr (backoff 3) =
        \<lparr>sent_result = Inl (Errorf ''max retries exceeded'' err),
         sent_delays = backoff 3, sent_requests = Suc 3\<rparr>"
      using loop_exhausted [of 3 doRequest err cancelled lastErr "backoff 3"] m d r by simp
    then show "SendMessage doRequest cancelled =
        \<lparr>sent_result = Inl (Errorf ''max retries exceeded'' err),
         sent_delays = [1, 2, 4], sent_requests = 4\<rparr>"
      using eq by (simp add: k3 backoff_values)
  next
    fix response assume "doRequest k = Inr response"
    then show "SendMessage doRequest cancelled =
        \<lparr>sent_result = Inr (extractText response), sent_delays = take k [1, 2, 4],
         sent_requests = k + 1\<rparr>"
      using loop_success [OF k, of doRequest response cancelled lastErr "backoff k"] eq b by simp
  qed
qed

lemma extractText_first:
  assumes "Content resp = before @ seg # rest" "\<forall>b \<in> set before. Type b \<noteq> ''text''"
    "Type seg = ''text''"
  shows "extractText resp = Text seg"
proof -
  have "find (\<lambda>content. Type content = ''text'') (before @ seg # rest) = Some seg"
    using assms(2,3) by (induction before) auto
  then show ?thesis by (simp add: extractText_def assms(1))
qed

lemma extractText_none:
  assumes "\<forall>b \<in> set (Content resp). Type b \<noteq> ''text''"
  shows "extractText resp = []"
proof -
  have "find (\<lambda>content. Type content = ''text'') (Content resp) = None"
    using assms by (simp add: find_None_iff)
  then show ?thesis by (simp add: extractText_def)
qed

section \<open>Extraction of the vote payload\<close>

subsection \<open>Index and LastIndex of one character\<close>

lemma Index_absent: "Index s [c] = -1 \<longleftrightarrow> c \<notin> set s"
proof (induction s)
  case Nil
  show ?case by simp
next
  case (Cons x s)
  have "0 \<le> Index s [c] \<or> Index s [c] = -1"
    by (induction s) (auto simp: Let_def)
  then show ?case using Cons.IH by (auto simp: Let_def)
qed

lemma Index_range: "Index s [c] = -1 \<or> (0 \<le> Index s [c] \<and> nat (Index s [c]) < length s)"
  by (induction s) (auto simp: Let_def)

lemma Index_nth: "Index s [c] \<noteq> -1 \<Longrightarrow> s ! nat (Index s [c]) = c"
proof (induction s)
  case Nil
  then show ?case by simp
next
  case (Cons x s)
  show ?case
  proof (cases "x = c")
    case True
    then show ?thesis by simp
  next
    case False
    then have ne: "Index s [c] \<noteq> -1" using Cons.prems by (auto simp: Let_def)
    then have "0 \<le> Index s [c]" using Index_range [of s c] by auto
    then have "nat (Index s [c] + 1) = Suc (nat (Index s [c]))" by simp
    then show ?thesis using False ne Cons.IH by (simp add: Let_def)
  qed
qed

lemma Index_hd: "Index (c # s) [c] = 0"
  by simp

lemma LastIndex_absent: "LastIndex s [c] = -1 \<longleftrightarrow> c \<notin> set s"
proof (induction s)
  case Nil
  show ?case by simp
next
  case (Cons x s)
  have "0 \<le> LastIndex s [c] \<or> LastIndex s [c] = -1"
    by (induction s) (auto simp: Let_def)
  then show ?case using Cons.IH by (auto simp: Let_def)
qed

lemma LastIndex_range:
  "LastIndex s [c] = -1 \<or> (0 \<le> LastIndex s [c] \<and> nat (LastIndex s [c]) < length s)"
  by (induction s) (auto simp: Let_def)

lemma LastIndex_nth: "LastIndex s [c] \<noteq> -1 \<Longrightarrow> s ! nat (LastIndex s [c]) = c"
proof (induction s)
  case Nil
  then show ?case by simp
next
  case (Cons x s)
  show ?case
  proof (cases "LastIndex s [c] = -1")
    case True
    then show ?thesis using Cons.prems by (auto simp: Let_def split: if_splits)
  next
    case False
    then have "0 \<le> LastIndex s [c]" using LastIndex_range [of s c] by auto
    then have "nat (LastIndex s [c] + 1) = Suc (nat (LastIndex s [c]))" by simp
    then show ?thesis using False Cons.IH by (simp add: Let_def)
  qed
qed

lemma LastIndex_last: "LastIndex (s @ [c]) [c] = int (length s)"
  by (induction s) (auto simp: Let_def)

subsection \<open>Fences\<close>

lemma prefix_fence_backquote: "prefix fence (c # cs) \<Longrightarrow> c = CHR 0x60"
  by (simp add: fence_def)

lemma afterFence_skip: "c \<noteq> CHR 0x60 \<Longrightarrow> afterFence (c # cs) = afterFence cs"
  by (auto dest: prefix_fence_backquote)

lemma afterFence_decomp: "afterFence s = Some r \<Longrightarrow> \<exists>a. s = a @ fence @ r"
proof (induction s)
  case Nil
  then show ?case by simp
next
  case (Cons x s)
  show ?case
  proof (cases "prefix fence (x # s)")
    case True
    then obtain z where z: "x # s = fence @ z" by (auto simp: prefix_def)
    then have "drop 3 (x # s) = z" by (simp add: fence_def)
    then have "r = z" using Cons.prems True by simp
    then show ?thesis using z by (intro exI [of _ "[]"]) simp
  next
    case False
    then have "afterFence s = Some r" using Cons.prems by simp
    then obtain a where "s = a @ fence @ r" using Cons.IH by auto
    then show ?thesis by (intro exI [of _ "x # a"]) simp
  qed
qed

lemma afterFence_found: "afterFence (a @ fence @ c) \<noteq> None"
  by (induction a) (auto simp: fence_def)

lemma afterFence_substring:
  assumes "afterFence t \<noteq> None"
  shows "afterFence (x @ t @ y) \<noteq> None"
proof -
  from assms obtain r where "afterFence t = Some r" by auto
  then obtain a where "t = a @ fence @ r" using afterFence_decomp by blast
  then have "x @ t @ y = (x @ a) @ fence @ (r @ y)" by simp
  then show ?thesis using afterFence_found by metis
qed

lemma afterFence_second:
  "afterFence (a @ fence @ b @ fence @ c) = Some r \<Longrightarrow> afterFence r \<noteq> None"
proof (induction a)
  case Nil
  then have "r = b @ fence @ c" by (simp add: fence_def)
  then show ?case by (simp add: afterFence_found)
next
  case (Cons x a)
  show ?case
  proof (cases "prefix fence ((x # a) @ fence @ b @ fence @ c)")
    case True
    define u where "u = (x # a) @ fence @ b"
    have whole: "(x # a) @ fence @ b @ fence @ c = u @ fence @ c" by (simp add: u_def)
    have "3 \<le> length u" by (simp add: u_def fence_def)
    then have "drop 3 (u @ fence @ c) = drop 3 u @ fence @ c" by simp
    moreover have "r = drop 3 (u @ fence @ c)"
      using Cons.prems True unfolding whole by (cases "u @ fence @ c") simp_all
    ultimately show ?thesis using afterFence_found by simp
  next
    case False
    then show ?thesis using Cons by simp
  qed
qed

lemma beforeFence_None: "beforeFence s = None \<longleftrightarrow> afterFence s = None"
  by (induction s) (auto split: option.splits)

lemma beforeFence_decomp:
  "beforeFence s = Some body \<Longrightarrow> afterFence body = None \<and> (\<exists>c. s = body @ fence @ c)"
proof (induction s arbitrary: body)
  case Nil
  then show ?case by simp
next
  case (Cons x s)
  show ?case
  proof (cases "prefix fence (x # s)")
    case True
    then have "body = []" using Cons.prems by simp
    moreover obtain z where "x # s = fence @ z" using True by (auto simp: prefix_def)
    ultimately show ?thesis by auto
  next
    case False
    then obtain b where b: "beforeFence s = Some b" "body = x # b"
      using Cons.prems by (auto split: option.splits)
    then obtain c where c: "afterFence b = None" "s = b @ fence @ c"
      using Cons.IH by blast
    have "\<not> prefix fence (x # b)"
    proof
      assume "prefix fence (x # b)"
      then have "prefix fence ((x # b) @ fence @ c)" by (rule prefix_prefix)
      then show False using False c by simp
    qed
    then have "afterFence (x # b) = None" using c by simp
    then show ?thesis using b c by simp
  qed
qed

lemma isSpace_not_backquote: "isSpace c \<Longrightarrow> c \<noteq> CHR 0x60"
  by (auto simp: isSpace_def)

lemma afterFence_dropWhile: "afterFence (dropWhile isSpace u) = None \<longleftrightarrow> afterFence u = None"
proof (induction u)
  case Nil
  show ?case by simp
next
  case (Cons x u)
  show ?case
  proof (cases "isSpace x")
    case True
    then have "afterFence (x # u) = afterFence u"
      by (intro afterFence_skip isSpace_not_backquote)
    then show ?thesis using True Cons.IH by (simp del: afterFence.simps)
  next
    case False
    then show ?thesis by (simp del: afterFence.simps)
  qed
qed

lemma afterFence_json: "prefix ''json'' u \<Longrightarrow> afterFence (drop 4 u) = None \<longleftrightarrow> afterFence u = None"
proof -
  assume "prefix ''json'' u"
  then obtain z where "u = ''json'' @ z" by (auto simp: prefix_def)
  then show ?thesis by (simp add: afterFence_skip del: afterFence.simps)
qed

lemma codeBlockSubmatch_unlabel:
  "codeBlockSubmatch s =
     (case afterFence s of
        None \<Rightarrow> None
      | Some opened \<Rightarrow>
          (case beforeFence (unlabel opened) of
             None \<Rightarrow> None
           | Some body \<Rightarrow>
               Some (if body \<noteq> [] \<and> last body = CHR 0x0A then butlast body else body)))"
  by (cases "afterFence s") (simp_all add: codeBlockSubmatch_def unlabel_def Let_def)

lemma unlabel_suffix: "\<exists>skipped. opened = skipped @ unlabel opened"
proof (cases "prefix ''json'' opened")
  case True
  have "opened = take 4 opened @ drop 4 opened" by simp
  also have "drop 4 opened = takeWhile isSpace (drop 4 opened) @ dropWhile isSpace (drop 4 opened)"
    by simp
  finally have "opened = (take 4 opened @ takeWhile isSpace (drop 4 opened)) @ unlabel opened"
    using True by (simp add: unlabel_def)
  then show ?thesis by blast
next
  case False
  have "opened = takeWhile isSpace opened @ dropWhile isSpace opened" by simp
  then show ?thesis using False unfolding unlabel_def by metis
qed

lemma afterFence_unlabel: "afterFence (unlabel opened) = None \<longleftrightarrow> afterFence opened = None"
  by (simp add: unlabel_def afterFence_dropWhile afterFence_json)

lemma codeBlock_inner:
  assumes "codeBlockSubmatch s = Some inner"
  shows "afterFence inner = None" and "set inner \<subseteq> set s"
    and "\<exists>a b c. s = a @ fence @ b @ fence @ c"
proof -
  from assms obtain opened body where
    o: "afterFence s = Some opened" and b: "beforeFence (unlabel opened) = Some body"
    and i: "inner = (if body \<noteq> [] \<and> last body = CHR 0x0A then butlast body else body)"
    by (auto simp: codeBlockSubmatch_unlabel split: option.splits)
  obtain a where a: "s = a @ fence @ opened" using afterFence_decomp [OF o] by auto
  obtain skipped where sk: "opened = skipped @ unlabel opened" using unlabel_suffix by blast
  obtain c where nb: "afterFence body = None" and c: "unlabel opened = body @ fence @ c"
    using beforeFence_decomp [OF b] by auto
  have s: "s = a @ fence @ (skipped @ body) @ fence @ c"
    using a sk c by simp
  then show "\<exists>a b c. s = a @ fence @ b @ fence @ c" by blast
  have sub: "set inner \<subseteq> set body" using i by (auto dest: in_set_butlastD)
  have "set body \<subseteq> set s" by (subst s) auto
  then show "set inner \<subseteq> set s" using sub by blast
  show "afterFence inner = None"
  proof (cases "body \<noteq> [] \<and> last body = CHR 0x0A")
    case True
    then have "body \<noteq> []" by simp
    then have "[] @ butlast body @ [last body] = body"
      unfolding append_Nil by (rule append_butlast_last_id)
    then have "afterFence (butlast body) \<noteq> None \<Longrightarrow> afterFence body \<noteq> None"
      using afterFence_substring [of "butlast body" "[]" "[last body]"] by metis
    then have "afterFence (butlast body) = None" using nb by blast
    then show ?thesis using i True by simp
  next
    case False
    then show ?thesis using nb i by auto
  qed
qed

lemma codeBlock_found:
  "codeBlockSubmatch (a @ fence @ b @ fence @ c) \<noteq> None"
proof -
  obtain opened where o: "afterFence (a @ fence @ b @ fence @ c) = Some opened"
    using afterFence_found [of a "b @ fence @ c"] by auto
  have "afterFence opened \<noteq> None" using afterFence_second [OF o] .
  then have "beforeFence (unlabel opened) \<noteq> None"
    by (simp add: beforeFence_None afterFence_unlabel)
  then show ?thesis using o by (auto simp: codeBlockSubmatch_unlabel)
qed

lemma codeBlock_substring:
  assumes "codeBlockSubmatch (x @ t @ y) = None"
  shows "codeBlockSubmatch t = None"
proof (rule ccontr)
  assume "codeBlockSubmatch t \<noteq> None"
  then obtain inner where "codeBlockSubmatch t = Some inner" by auto
  then obtain a b c where "t = a @ fence @ b @ fence @ c"
    using codeBlock_inner(3) by blast
  then have "x @ t @ y = (x @ a) @ fence @ b @ fence @ (c @ y)" by simp
  then show False using assms codeBlock_found by metis
qed

lemma codeBlock_no_fence: "afterFence t = None \<Longrightarrow> codeBlockSubmatch t = None"
  by (simp add: codeBlockSubmatch_def)

lemma extractJSON_braceSpan:
  "extractJSON s0 = braceSpan (case codeBlockSubmatch s0 of Some inner \<Rightarrow> inner | None \<Rightarrow> s0)"
  by (simp add: extractJSON_def braceSpan_def Let_def)

lemma braceSpan_clean: "braceSpan (CHR ''{'' # m @ [CHR ''}'']) = CHR ''{'' # m @ [CHR ''}'']"
proof -
  have e: "LastIndex ((CHR ''{'' # m) @ [CHR ''}'']) [CHR ''}''] = int (length (CHR ''{'' # m))"
    by (rule LastIndex_last)
  have s: "Index (CHR ''{'' # m @ [CHR ''}'']) [CHR ''{''] = 0" by (rule Index_hd)
  show ?thesis using e s by (simp add: braceSpan_def Let_def del: Index.simps LastIndex.simps)
qed

lemma list_ends:
  assumes "2 \<le> length r" "r ! 0 = a" "r ! (length r - 1) = b"
  shows "\<exists>m. r = a # m @ [b]"
proof -
  from assms(1) obtain x t where r: "r = x # t" by (cases r) auto
  with assms(1) have t: "t \<noteq> []" by auto
  then have "t = butlast t @ [last t]" by simp
  moreover have "last t = b" using assms(3) r t by (simp add: last_conv_nth)
  moreover have "x = a" using assms(2) r by simp
  ultimately show ?thesis using r by metis
qed

lemma braceSpan_shape:
  assumes "braceSpan s \<noteq> []"
  shows "\<exists>x m y. s = x @ braceSpan s @ y \<and> braceSpan s = CHR ''{'' # m @ [CHR ''}'']"
proof -
  let ?st = "Index s ''{''" and ?e = "LastIndex s ''}''"
  from assms have c: "?st \<noteq> -1" "?e \<noteq> -1" "?st < ?e"
    by (auto simp: braceSpan_def Let_def split: if_splits)
  have st: "0 \<le> ?st" "nat ?st < length s" using Index_range [of s "CHR ''{''"] c by auto
  have e: "0 \<le> ?e" "nat ?e < length s" using LastIndex_range [of s "CHR ''}''"] c by auto
  define i where "i = nat ?st"
  define n where "n = nat (?e + 1 - ?st)"
  have r: "braceSpan s = take n (drop i s)"
    using c by (simp add: braceSpan_def Let_def i_def n_def)
  have n2: "2 \<le> n" using c st by (simp add: n_def)
  have fit: "i + n \<le> length s" using st e c by (simp add: i_def n_def)
  have endpos: "i + (n - Suc 0) = nat ?e" using st e c by (simp add: i_def n_def)
  have len: "length (braceSpan s) = n" using fit by (simp add: r)
  have first: "braceSpan s ! 0 = CHR ''{''"
    using Index_nth [OF c(1)] n2 fit by (simp add: r i_def)
  have "braceSpan s ! (n - 1) = s ! (i + (n - 1))"
    using n2 fit by (simp add: r)
  then have final: "braceSpan s ! (length (braceSpan s) - 1) = CHR ''}''"
    using LastIndex_nth [OF c(2)] by (simp add: len endpos)
  obtain m where m: "braceSpan s = CHR ''{'' # m @ [CHR ''}'']"
    using list_ends [OF _ first final] n2 len by auto
  have "take n (drop i s) @ drop n (drop i s) = drop i s" by (rule append_take_drop_id)
  then have "s = take i s @ take n (drop i s) @ drop n (drop i s)"
    by (simp only: append_take_drop_id)
  then have "s = take i s @ braceSpan s @ drop n (drop i s)" by (simp only: r)
  then show ?thesis using m by blast
qed

lemma braceSpan_absent: "CHR ''{'' \<notin> set s \<or> CHR ''}'' \<notin> set s \<Longrightarrow> braceSpan s = []"
  using Index_absent [of s "CHR ''{''"] LastIndex_absent [of s "CHR ''}''"]
  by (auto simp: braceSpan_def Let_def)

lemma extractJSON_clean:
  assumes "codeBlockSubmatch payload = None" "payload = CHR ''{'' # m @ [CHR ''}'']"
  shows "extractJSON payload = payload"
  using assms braceSpan_clean [of m] by (simp add: extractJSON_braceSpan)

lemma extractJSON_idem: "extractJSON (extractJSON s) = extractJSON s"
proof (cases "extractJSON s = []")
  case True
  then show ?thesis by (simp add: extractJSON_def codeBlockSubmatch_def)
next
  case False
  let ?s' = "case codeBlockSubmatch s of Some inner \<Rightarrow> inner | None \<Rightarrow> s"
  have r: "extractJSON s = braceSpan ?s'" by (rule extractJSON_braceSpan)
  then obtain x m y where sh: "?s' = x @ extractJSON s @ y"
    "extractJSON s = CHR ''{'' # m @ [CHR ''}'']"
    using braceSpan_shape [of ?s'] False by auto
  have "codeBlockSubmatch (extractJSON s) = None"
  proof (cases "codeBlockSubmatch s")
    case None
    then have "codeBlockSubmatch (x @ extractJSON s @ y) = None" using sh(1) by simp
    then show ?thesis by (rule codeBlock_substring)
  next
    case (Some inner)
    then have "afterFence (x @ extractJSON s @ y) = None"
      using codeBlock_inner(1) [OF Some] sh(1) by simp
    then have "afterFence (extractJSON s) = None"
      using afterFence_substring [of "extractJSON s" x y] by blast
    then show ?thesis by (rule codeBlock_no_fence)
  qed
  then show ?thesis using sh(2) by (rule extractJSON_clean)
qed

lemma afterFence_first: "CHR 0x60 \<notin> set before \<Longrightarrow> afterFence (before @ fence @ z) = Some z"
proof (induction before)
  case Nil
  show ?case by (simp add: fence_def)
next
  case (Cons x before)
  then have "afterFence (x # (before @ fence @ z)) = afterFence (before @ fence @ z)"
    by (intro afterFence_skip) auto
  then show ?case using Cons by simp
qed

lemma unlabel_payload:
  assumes "label = [] \<or> label = ''json''" "\<forall>c \<in> set ws. isSpace c"
  shows "unlabel (label @ ws @ CHR ''{'' # z) = CHR ''{'' # z"
proof -
  have brace: "\<not> isSpace (CHR ''{'')" by (simp add: isSpace_def)
  have dw: "dropWhile isSpace (ws @ CHR ''{'' # z) = CHR ''{'' # z"
    using assms(2) brace by (simp add: dropWhile_append2)
  from assms(1) show ?thesis
  proof
    assume l: "label = []"
    have "\<not> prefix ''json'' (ws @ CHR ''{'' # z)"
    proof (cases ws)
      case Nil
      then show ?thesis by simp
    next
      case (Cons w ws')
      then have "isSpace w" using assms(2) by simp
      then have "w \<noteq> CHR ''j''" by (auto simp: isSpace_def)
      then show ?thesis using Cons by simp
    qed
    then show ?thesis using l dw by (simp add: unlabel_def)
  next
    assume l: "label = ''json''"
    then show ?thesis using dw by (simp add: unlabel_def)
  qed
qed

lemma not_prefix_fence_append:
  assumes "\<not> prefix fence x" "x = [] \<or> last x \<noteq> CHR 0x60" "x \<noteq> []"
  shows "\<not> prefix fence (x @ y)"
proof (cases x)
  case Nil
  then show ?thesis using assms by simp
next
  case x1: (Cons a x')
  show ?thesis
  proof (cases x')
    case Nil
    then show ?thesis using assms x1 by (simp add: fence_def)
  next
    case x2: (Cons b x'')
    show ?thesis
    proof (cases x'')
      case Nil
      then show ?thesis using assms x1 x2 by (auto simp: fence_def)
    next
      case (Cons c x''')
      then show ?thesis using assms x1 x2 by (auto simp: fence_def)
    qed
  qed
qed

lemma beforeFence_first:
  assumes "afterFence x = None" "x = [] \<or> last x \<noteq> CHR 0x60"
  shows "beforeFence (x @ fence @ rest) = Some x"
  using assms
proof (induction x)
  case Nil
  show ?case by (simp add: fence_def)
next
  case (Cons a x)
  have np: "\<not> prefix fence (a # x)" and nx: "afterFence x = None"
    using Cons.prems(1) by (auto split: if_splits)
  have "\<not> prefix fence ((a # x) @ fence @ rest)"
    using not_prefix_fence_append [OF np] Cons.prems(2) by simp
  moreover have "beforeFence (x @ fence @ rest) = Some x"
    using Cons.IH nx Cons.prems(2) by (cases x) (auto split: if_splits)
  ultimately show ?case by simp
qed

lemma afterFence_snoc:
  assumes "afterFence x = None" "c \<noteq> CHR 0x60"
  shows "afterFence (x @ [c]) = None"
proof (rule ccontr)
  assume "afterFence (x @ [c]) \<noteq> None"
  then obtain r where "afterFence (x @ [c]) = Some r" by auto
  then obtain a where a: "x @ [c] = a @ fence @ r" using afterFence_decomp by blast
  show False
  proof (cases r rule: rev_cases)
    case Nil
    then have "c = last fence" using a by (metis append_Nil2 append_assoc fence_def last_appendR last_snoc list.distinct(1))
    then show False using assms(2) by (simp add: fence_def)
  next
    case (snoc r' z)
    then have "x @ [c] = (a @ fence @ r') @ [z]" using a by simp
    then have "x = a @ fence @ r'" by (metis append1_eq_conv)
    then show False using assms(1) afterFence_found by metis
  qed
qed

lemma codeBlockSubmatch_fenced:
  assumes p: "payload = CHR ''{'' # m @ [CHR ''}'']" and nf: "afterFence payload = None"
    and pre: "CHR 0x60 \<notin> set before" and lab: "label = [] \<or> label = ''json''"
    and ws: "\<forall>c \<in> set ws. isSpace c" and nl: "nl = [] \<or> nl = [CHR 0x0A]"
  shows "codeBlockSubmatch (before @ fence @ label @ ws @ payload @ nl @ fence @ rest) =
         Some payload"
proof -
  let ?opened = "label @ ws @ payload @ nl @ fence @ rest"
  have o: "afterFence (before @ fence @ ?opened) = Some ?opened"
    by (rule afterFence_first [OF pre])
  have "?opened = label @ ws @ CHR ''{'' # (m @ [CHR ''}''] @ nl @ fence @ rest)"
    by (simp add: p)
  then have "unlabel ?opened = CHR ''{'' # (m @ [CHR ''}''] @ nl @ fence @ rest)"
    using unlabel_payload [OF lab ws] by simp
  then have u: "unlabel ?opened = (payload @ nl) @ fence @ rest" by (simp add: p)
  have nfnl: "afterFence (payload @ nl) = None"
    using nl nf afterFence_snoc [of payload "CHR 0x0A"] by auto
  have lastnl: "last (payload @ nl) \<noteq> CHR 0x60" using nl by (auto simp: p)
  have b: "beforeFence (unlabel ?opened) = Some (payload @ nl)"
    unfolding u using nfnl lastnl by (intro beforeFence_first) simp_all
  have inner: "(if payload @ nl \<noteq> [] \<and> last (payload @ nl) = CHR 0x0A
                then butlast (payload @ nl) else payload @ nl) = payload"
    using nl by (auto simp: p butlast_append)
  show ?thesis
    unfolding codeBlockSubmatch_unlabel o option.case b inner ..
qed

lemma extractJSON_fenced:
  assumes p: "payload = CHR ''{'' # m @ [CHR ''}'']" and nf: "afterFence payload = None"
    and pre: "CHR 0x60 \<notin> set before" and lab: "label = [] \<or> label = ''json''"
    and ws: "\<forall>c \<in> set ws. isSpace c" and nl: "nl = [] \<or> nl = [CHR 0x0A]"
  shows "extractJSON (before @ fence @ label @ ws @ payload @ nl @ fence @ rest) = payload"
  unfolding extractJSON_braceSpan codeBlockSubmatch_fenced [OF assms] option.case
  unfolding p by (rule braceSpan_clean)

lemma extractJSON_no_brace:
  assumes "CHR ''{'' \<notin> set s \<or> CHR ''}'' \<notin> set s"
  shows "extractJSON s = []"
proof (cases "codeBlockSubmatch s")
  case None
  then show ?thesis using assms by (simp add: extractJSON_braceSpan braceSpan_absent)
next
  case (Some inner)
  then have "set inner \<subseteq> set s" by (rule codeBlock_inner(2))
  then have "CHR ''{'' \<notin> set inner \<or> CHR ''}'' \<notin> set inner" using assms by blast
  then show ?thesis using Some by (simp add: extractJSON_braceSpan braceSpan_absent)
qed

text \<open>
  Claim C8. \<open>extractJSON\<close> returns an extracted payload unchanged, and a payload
  from \<open>{\<close> to \<open>}\<close> that holds no code block as well; it finds such a payload inside
  one fenced block (text without backquotes before it, an optional \<open>json\<close> label,
  white space, an optional newline before the closing fence, any text after it); and
  a text with no brace gives the empty string, which \<open>parseVote\<close> reports as a failure.
\<close>

theorem extractJSON_idempotent_fence_tolerant:
  "extractJSON (extractJSON s) = extractJSON s
   \<and> (payload = CHR ''{'' # m @ [CHR ''}''] \<and> codeBlockSubmatch payload = None \<longrightarrow>
        extractJSON payload = payload)
   \<and> (payload = CHR ''{'' # m @ [CHR ''}''] \<and> afterFence payload = None \<and>
      CHR 0x60 \<notin> set before \<and> (label = [] \<or> label = ''json'') \<and>
      (\<forall>c \<in> set ws. isSpace c) \<and> (nl = [] \<or> nl = [CHR 0x0A]) \<longrightarrow>
        extractJSON (before @ fence @ label @ ws @ payload @ nl @ fence @ rest) = payload)
   \<and> (CHR ''{'' \<notin> set s \<and> CHR ''}'' \<notin> set s \<longrightarrow>
        extractJSON s = [] \<and> parseVote unmarshal a s = Inl NoJSONFound)"
proof (intro conjI impI)
  show "extractJSON (extractJSON s) = extractJSON s" by (rule extractJSON_idem)
next
  assume "payload = CHR ''{'' # m @ [CHR ''}''] \<and> codeBlockSubmatch payload = None"
  then show "extractJSON payload = payload" using extractJSON_clean by blast
next
  assume "payload = CHR ''{'' # m @ [CHR ''}''] \<and> afterFence payload = None \<and>
      CHR 0x60 \<notin> set before \<and> (label = [] \<or> label = ''json'') \<and>
      (\<forall>c \<in> set ws. isSpace c) \<and> (nl = [] \<or> nl = [CHR 0x0A])"
  then show "extractJSON (before @ fence @ label @ ws @ payload @ nl @ fence @ rest) = payload"
    using extractJSON_fenced by blast
next
  assume a: "CHR ''{'' \<notin> set s \<and> CHR ''}'' \<notin> set s"
  then show e: "extractJSON s = []" using extractJSON_no_brace by blast
  show "parseVote unmarshal a s = Inl NoJSONFound"
    using e by (simp add: parseVote_def)
qed

text \<open>
  Claim C9. When the decoded ranking holds both the voter's own ID and an agentID out of
  range, wherever they stand, \<open>parseVote\<close> reports the self-vote.
\<close>

theorem parseVote_self_vote_first:
  assumes "extractJSON response \<noteq> []"
    and "unmarshal (extractJSON response) = Inr voteResp"
    and "ID a \<in> set (respRankings voteResp)"
    and "\<exists>r \<in> set (respRankings voteResp). r < 1 \<or> r > Total a"
  shows "parseVote unmarshal a response = Inl (SelfVote (ID a))"
  using assms(1-3) by (simp add: parseVote_def)

section \<open>The sample inputs, evaluated\<close>

lemma extractJSON_sampleJSON: "extractJSON sampleJSON = sampleJSON"
  by (simp add: extractJSON_def codeBlockSubmatch_def sampleJSON_def fence_def Let_def)

lemma extractJSON_selfRangeJSON: "extractJSON selfRangeJSON = selfRangeJSON"
  by (simp add: extractJSON_def codeBlockSubmatch_def selfRangeJSON_def fence_def Let_def)

lemma sample_distinct: "sampleJSON \<noteq> selfRangeJSON" "sampleJSON \<noteq> []" "selfRangeJSON \<noteq> []"
  by (simp_all add: sampleJSON_def selfRangeJSON_def)

lemma SendMessage_textReply:
  "SendMessage (textReply t) cancelled =
     \<lparr>sent_result = Inr t, sent_delays = [], sent_requests = 1\<rparr>"
  unfolding SendMessage_def
  by (subst SendMessage_loop.simps) (simp add: textReply_def extractText_def)

lemma Agent_Vote_sameReply:
  "Agent_Vote unmarshal (sameReply t) k a task solutions critiques = parseVote unmarshal a t"
  by (simp add: Agent_Vote_def sameReply_def SendMessage_textReply Let_def)

lemma parseVote_sample:
  "parseVote sampleUnmarshal \<lparr>ID = 1, Total = 3\<rparr> sampleJSON =
     Inr \<lparr>VoterID = 1, Rankings = [2, 3, 2, 3], Reasoning = ''r''\<rparr>"
  "parseVote sampleUnmarshal \<lparr>ID = 2, Total = 3\<rparr> sampleJSON = Inl (SelfVote 2)"
  "parseVote sampleUnmarshal \<lparr>ID = 3, Total = 3\<rparr> sampleJSON = Inl (SelfVote 3)"
  by (simp_all add: parseVote_def extractJSON_sampleJSON sampleUnmarshal_def sample_distinct)

lemma agents_New_3:
  "agents (New task 3) = [\<lparr>ID = 1, Total = 3\<rparr>, \<lparr>ID = 2, Total = 3\<rparr>, \<lparr>ID = 3, Total = 3\<rparr>]"
  by (simp add: New_def upto.simps)

lemma voteWorker_sample:
  "cast (voteWorker sampleUnmarshal (sameReply sampleJSON) s \<lparr>ID = 1, Total = 3\<rparr>) =
     \<lparr>VoterID = 1, Rankings = [2, 3, 2, 3], Reasoning = ''r''\<rparr>"
  "cast (voteWorker sampleUnmarshal (sameReply sampleJSON) s \<lparr>ID = 2, Total = 3\<rparr>) =
     \<lparr>VoterID = 2, Rankings = [], Reasoning = ''Vote failed to parse''\<rparr>"
  "cast (voteWorker sampleUnmarshal (sameReply sampleJSON) s \<lparr>ID = 3, Total = 3\<rparr>) =
     \<lparr>VoterID = 3, Rankings = [], Reasoning = ''Vote failed to parse''\<rparr>"
  by (simp_all add: voteWorker_def Agent_Vote_sameReply parseVote_sample Let_def)

lemma Votes_sample:
  "Votes (session (vote_council (Council_Vote sampleUnmarshal (sameReply sampleJSON)
      (New ''task'' 3)))) =
     [\<lparr>VoterID = 1, Rankings = [2, 3, 2, 3], Reasoning = ''r''\<rparr>,
      \<lparr>VoterID = 2, Rankings = [], Reasoning = ''Vote failed to parse''\<rparr>,
      \<lparr>VoterID = 3, Rankings = [], Reasoning = ''Vote failed to parse''\<rparr>]"
  by (simp add: Votes_Council_Vote Votes_New agents_New_3 voteWorker_sample)

lemma Scores_sample:
  "Scores (session (Tally (vote_council (Council_Vote sampleUnmarshal (sameReply sampleJSON)
      (New ''task'' 3))))) = [(1, 0), (2, 2), (3, 1)]"
  by (simp add: Scores_Tally Votes_sample agents_Council_Vote agents_New_3 Scores_Council_Vote
      Scores_New tallyVotes_def seedScores_def addPoints_def scoreOf_def Let_def)

section \<open>The vote phase and the gateway\<close>

text \<open>
  Claim C3, as the code has it. Every vote the vote phase records for a council made by
  \<open>New\<close> keeps the voter out of its rankings and ranks only agentIDs of
  \<open>[1, agentCount]\<close>; a response whose decoded ranking names the voter or an agentID
  out of range is rejected by \<open>parseVote\<close>; and an agent whose two attempts both fail
  is recorded with an empty ranking. Nothing checks that the elements are unique.
\<close>

theorem recorded_votes_valid:
  "(\<forall>v \<in> set (Votes (session (vote_council (Council_Vote unmarshal world (New task N))))).
      VoterID v \<notin> set (Rankings v) \<and> (\<forall>r \<in> set (Rankings v). 1 \<le> r \<and> r \<le> N))
   \<and> (extractJSON response \<noteq> [] \<and> unmarshal (extractJSON response) = Inr voteResp \<and>
      (ID a \<in> set (respRankings voteResp) \<or>
       (\<exists>r \<in> set (respRankings voteResp). r < 1 \<or> Total a < r)) \<longrightarrow>
        (\<exists>err. parseVote unmarshal a response = Inl err))
   \<and> ((\<exists>err. Agent_Vote unmarshal world 0 a (Task s) (Solutions s) (Critiques s) = Inl err) \<and>
      (\<exists>err. Agent_Vote unmarshal world 1 a (Task s) (Solutions s) (Critiques s) = Inl err) \<longrightarrow>
        VoterID (cast (voteWorker unmarshal world s a)) = ID a \<and>
        Rankings (cast (voteWorker unmarshal world s a)) = [])"
proof (intro conjI impI)
  show "\<forall>v \<in> set (Votes (session (vote_council (Council_Vote unmarshal world (New task N))))).
      VoterID v \<notin> set (Rankings v) \<and> (\<forall>r \<in> set (Rankings v). 1 \<le> r \<and> r \<le> N)"
  proof
    fix v
    assume "v \<in> set (Votes (session (vote_council (Council_Vote unmarshal world (New task N)))))"
    then have "VoterID v \<notin> set (Rankings v) \<and> (\<forall>r \<in> set (Rankings v). 1 \<le> r \<and> r \<le> N)
       \<and> 1 \<le> VoterID v \<and> VoterID v \<le> N"
      by (rule recorded_valid)
    then show "VoterID v \<notin> set (Rankings v) \<and> (\<forall>r \<in> set (Rankings v). 1 \<le> r \<and> r \<le> N)"
      by simp
  qed
next
  assume h: "extractJSON response \<noteq> [] \<and> unmarshal (extractJSON response) = Inr voteResp \<and>
      (ID a \<in> set (respRankings voteResp) \<or>
       (\<exists>r \<in> set (respRankings voteResp). r < 1 \<or> Total a < r))"
  show "\<exists>err. parseVote unmarshal a response = Inl err"
  proof (cases "parseVote unmarshal a response")
    case (Inl err)
    then show ?thesis by blast
  next
    case (Inr v)
    have "Rankings v = respRankings voteResp"
      using Inr h by (auto simp: parseVote_def Let_def split: if_splits option.splits)
    then show ?thesis using parseVote_valid(2,3) [OF Inr] h by auto
  qed
next
  assume "(\<exists>err. Agent_Vote unmarshal world 0 a (Task s) (Solutions s) (Critiques s) = Inl err) \<and>
      (\<exists>err. Agent_Vote unmarshal world 1 a (Task s) (Solutions s) (Critiques s) = Inl err)"
  then obtain e e' where
    "Agent_Vote unmarshal world 0 a (Task s) (Solutions s) (Critiques s) = Inl e"
    "Agent_Vote unmarshal world 1 a (Task s) (Solutions s) (Critiques s) = Inl e'"
    by blast
  then have w: "voteWorker unmarshal world s a =
         \<lparr>cast = \<lparr>VoterID = ID a, Rankings = [], Reasoning = ''Vote failed to parse''\<rparr>,
          calls = [callOf s a, callOf s a],
          warning = Some (VoteFailedAfterRetry (ID a) e')\<rparr>"
    by (rule voteWorker_degraded)
  show "VoterID (cast (voteWorker unmarshal world s a)) = ID a" by (simp add: w)
  show "Rankings (cast (voteWorker unmarshal world s a)) = []" by (simp add: w)
qed


text \<open>
  Claim C10. When an attempt succeeds (after rate-limited attempts whose waits were not
  cancelled), \<open>SendMessage\<close> returns the text of the first segment of type
  \<open>text\<close>, and the empty string with no error when the response has no such segment.
\<close>

theorem SendMessage_first_text:
  assumes "k \<le> 3" and "\<forall>j<k. rateLimited doRequest j" and "\<forall>j<k. \<not> cancelled j"
    and "doRequest k = Inr resp"
  shows "sent_result (SendMessage doRequest cancelled) = Inr (extractText resp)
       \<and> (\<forall>before seg rest. Content resp = before @ seg # rest \<and>
            (\<forall>b \<in> set before. Type b \<noteq> ''text'') \<and> Type seg = ''text'' \<longrightarrow>
            extractText resp = Text seg)
       \<and> ((\<forall>b \<in> set (Content resp). Type b \<noteq> ''text'') \<longrightarrow>
            sent_result (SendMessage doRequest cancelled) = Inr [])"
proof -
  have k: "k \<le> maxRetries" using assms(1) by (simp add: maxRetries_def)
  obtain lastErr where "SendMessage doRequest cancelled =
      SendMessage_loop doRequest cancelled k lastErr (backoff k)"
    using loop_prefix [OF k assms(2,3)] by auto
  then have r: "sent_result (SendMessage doRequest cancelled) = Inr (extractText resp)"
    using loop_success [of k doRequest resp cancelled lastErr "backoff k"] k assms(4) by simp
  show ?thesis
  proof (intro conjI allI impI)
    show "sent_result (SendMessage doRequest cancelled) = Inr (extractText resp)" by (rule r)
  next
    fix before seg rest
    assume "Content resp = before @ seg # rest \<and>
            (\<forall>b \<in> set before. Type b \<noteq> ''text'') \<and> Type seg = ''text''"
    then show "extractText resp = Text seg" using extractText_first by blast
  next
    assume "\<forall>b \<in> set (Content resp). Type b \<noteq> ''text''"
    then show "sent_result (SendMessage doRequest cancelled) = Inr []"
      using r extractText_none by simp
  qed
qed

section \<open>Instances\<close>

text \<open>
  The statements above, applied to the sample inputs: the deliberation of the
  specification's scenario (votes \<open>1\<rightarrow>[2,3]\<close>, \<open>2\<rightarrow>[3,1]\<close>, \<open>3\<rightarrow>[1,2]\<close>, a
  three-way tie at 3 points), one with a sole winner, a council of three whose agents all
  answer with the ranking \<open>[2,3,2,3]\<close>, and one whose agents answer without braces.
  The three statements named \<open>counterexample\<close> show where the code departs from the
  uniqueness of rankings, from the lower-case placeholder and from the untruncated sum.
\<close>

lemma Scores_tie:
  "Scores (session (Tally (withVotes (New ''task'' 3) tieVotes))) = [(1, 3), (2, 3), (3, 3)]"
  by (simp add: withVotes_def tieVotes_def Tally_def New_def upto.simps tallyVotes_def
      seedScores_def addPoints_def scoreOf_def Let_def)

lemma Scores_win:
  "Scores (session (Tally (withVotes (New ''task'' 3) winVotes))) = [(1, 2), (2, 4), (3, 3)]"
  by (simp add: withVotes_def winVotes_def Tally_def New_def upto.simps tallyVotes_def
      seedScores_def addPoints_def scoreOf_def Let_def)

lemma topAgents_tie: "topAgents [(1, 3), (2, 3), (3, 3)] = {1, 2, 3}"
  by (auto simp: topAgents_def scoreOf_def)

lemma topAgents_win: "topAgents [(1, 2), (2, 4), (3, 3)] = {2}"
  by (auto simp: topAgents_def scoreOf_def)

theorem Tally_scores_witness:
  "map_of (Scores (session (Tally (withVotes (New ''task'' 3) tieVotes)))) 2 = Some 3"
proof -
  have a: "agents (withVotes (New ''task'' 3) tieVotes) = agents (New ''task'' 3)"
    by (simp add: withVotes_def)
  have s: "Scores (session (withVotes (New ''task'' 3) tieVotes)) = []"
    by (simp add: withVotes_def New_def)
  have e: "expectedScore 3 (Votes (session (withVotes (New ''task'' 3) tieVotes))) 2 = 3"
    by (simp add: withVotes_def tieVotes_def expectedScore_def pointsFrom_def
        positionPoints_def)
  show ?thesis
    using Tally_scores [OF a s, of 2] e by simp
qed

theorem Tally_winner_or_tie_witness:
  "WinnerID (session (Tally (withVotes (New ''task'' 3) winVotes))) = Some 2
   \<and> \<not> IsTie (session (Tally (withVotes (New ''task'' 3) winVotes)))
   \<and> IsTie (session (Tally (withVotes (New ''task'' 3) tieVotes)))
   \<and> TiedAgents (session (Tally (withVotes (New ''task'' 3) tieVotes))) = [1, 2, 3]"
proof -
  have fresh: "\<And>votes. Scores (session (withVotes (New ''task'' 3) votes)) = []"
    by (simp add: withVotes_def New_def)
  have two: "2 \<le> card {1, 2, 3 :: int}" by simp
  have sorted3: "sorted_list_of_set {1, 2, 3 :: int} = [1, 2, 3]" by simp
  show ?thesis
    using Tally_winner_or_tie [OF fresh, of winVotes 2] Tally_winner_or_tie [OF fresh, of tieVotes 0]
    by (simp add: Scores_tie Scores_win topAgents_tie topAgents_win)
qed

theorem recorded_votes_valid_witness:
  "VoterID \<lparr>VoterID = 1, Rankings = [2, 3, 2, 3], Reasoning = ''r''\<rparr>
     \<notin> set (Rankings \<lparr>VoterID = 1, Rankings = [2, 3, 2, 3], Reasoning = ''r''\<rparr>)
   \<and> hd (Votes (session (vote_council (Council_Vote sampleUnmarshal (sameReply sampleJSON)
        (New ''task'' 3))))) = \<lparr>VoterID = 1, Rankings = [2, 3, 2, 3], Reasoning = ''r''\<rparr>"
proof -
  let ?v = "\<lparr>VoterID = 1, Rankings = [2, 3, 2, 3], Reasoning = ''r''\<rparr>"
  have m: "?v \<in> set (Votes (session (vote_council (Council_Vote sampleUnmarshal
      (sameReply sampleJSON) (New ''task'' 3)))))"
    by (simp add: Votes_sample)
  have "\<forall>v \<in> set (Votes (session (vote_council (Council_Vote sampleUnmarshal
      (sameReply sampleJSON) (New ''task'' 3))))).
      VoterID v \<notin> set (Rankings v) \<and> (\<forall>r \<in> set (Rankings v). 1 \<le> r \<and> r \<le> 3)"
    using recorded_votes_valid [of sampleUnmarshal "sameReply sampleJSON" "''task''" 3]
    by blast
  then have "VoterID ?v \<notin> set (Rankings ?v)" using m by blast
  then show ?thesis by (simp add: Votes_sample)
qed

theorem recorded_votes_unique_counterexample:
  "\<not> distinct (Rankings (hd (Votes (session (vote_council
      (Council_Vote sampleUnmarshal (sameReply sampleJSON) (New ''task'' 3)))))))"
  by (simp add: Votes_sample)





theorem SendMessage_retry_policy_witness:
  "SendMessage alwaysThrottled (\<lambda>attempt. False) =
     \<lparr>sent_result = Inl (Errorf ''max retries exceeded''
                          (APIError 429 ''rate_limit_error'' ''slow down'')),
      sent_delays = [1, 2, 4], sent_requests = 4\<rparr>"
  using SendMessage_retry_policy [of 3 alwaysThrottled "\<lambda>attempt. False"]
  by (simp add: alwaysThrottled_def rateLimited_def isRateLimitError_def)

theorem Scores_shape_witness:
  "fst ` set (Scores (session (Tally (vote_council
      (Council_Vote sampleUnmarshal (sameReply sampleJSON) (New ''task'' 3)))))) = {1..3}
   \<and> length (Scores (session (Tally (vote_council
      (Council_Vote sampleUnmarshal (sameReply sampleJSON) (New ''task'' 3)))))) = 3"
  using Scores_shape [of 3 sampleUnmarshal "sameReply sampleJSON" "''task''"]
  by (simp add: voteAndTally_returns)

theorem score_sum_conserved_witness:
  "(\<Sum>a\<leftarrow>[1..3]. scoreOf (Scores (session (Tally (vote_council
      (Council_Vote sampleUnmarshal (sameReply sampleJSON) (New ''task'' 3)))))) a) =
   (\<Sum>v\<leftarrow>Votes (session (Tally (vote_council
      (Council_Vote sampleUnmarshal (sameReply sampleJSON) (New ''task'' 3))))). voteWeight 3 v)"
  using score_sum_conserved [of 3 sampleUnmarshal "sameReply sampleJSON" "''task''"]
  by (simp add: voteAndTally_returns)

theorem score_sum_as_stated_counterexample:
  "(\<Sum>a\<leftarrow>[1..3]. scoreOf (Scores (session (Tally (vote_council
      (Council_Vote sampleUnmarshal (sameReply sampleJSON) (New ''task'' 3)))))) a) \<noteq>
   (\<Sum>v\<leftarrow>Votes (session (Tally (vote_council
      (Council_Vote sampleUnmarshal (sameReply sampleJSON) (New ''task'' 3))))).
      voteWeightAsStated 3 v)"
proof -
  have v: "Votes (session (Tally (vote_council
      (Council_Vote sampleUnmarshal (sameReply sampleJSON) (New ''task'' 3))))) =
      Votes (session (vote_council
      (Council_Vote sampleUnmarshal (sameReply sampleJSON) (New ''task'' 3))))"
    by (simp add: Tally_def Let_def)
  show ?thesis
    unfolding v Votes_sample Scores_sample
    by (simp add: upto.simps scoreOf_def voteWeightAsStated_def)
qed

lemma afterFence_sampleJSON: "afterFence sampleJSON = None"
  by (simp add: sampleJSON_def fence_def)

theorem extractJSON_idempotent_fence_tolerant_witness:
  "extractJSON (extractJSON sampleJSON) = extractJSON sampleJSON
   \<and> extractJSON (''My vote: '' @ fence @ ''json'' @ [CHR 0x0A] @ sampleJSON @ [CHR 0x0A] @ fence
        @ '' Thanks.'') = sampleJSON
   \<and> extractJSON ''I abstain'' = []"
proof -
  have shape: "sampleJSON = CHR ''{'' # butlast (tl sampleJSON) @ [CHR ''}'']"
    by (simp add: sampleJSON_def)
  have ws: "\<forall>c \<in> set [CHR 0x0A]. isSpace c" by (simp add: isSpace_def)
  have pre: "CHR 0x60 \<notin> set ''My vote: ''" by simp
  have nb: "CHR ''{'' \<notin> set ''I abstain'' \<and> CHR ''}'' \<notin> set ''I abstain''" by simp
  note T = extractJSON_idempotent_fence_tolerant
    [of sampleJSON sampleJSON "butlast (tl sampleJSON)" "''My vote: ''" "''json''"
        "[CHR 0x0A]" "[CHR 0x0A]" "'' Thanks.''" sampleUnmarshal "\<lparr>ID = 1, Total = 3\<rparr>"]
  note U = extractJSON_idempotent_fence_tolerant
    [of "''I abstain''" sampleJSON "butlast (tl sampleJSON)" "[]" "[]" "[]" "[]" "[]"
        sampleUnmarshal "\<lparr>ID = 1, Total = 3\<rparr>"]
  have 1: "extractJSON (extractJSON sampleJSON) = extractJSON sampleJSON" using T by blast
  have 2: "extractJSON (''My vote: '' @ fence @ ''json'' @ [CHR 0x0A] @ sampleJSON @ [CHR 0x0A]
        @ fence @ '' Thanks.'') = sampleJSON"
    using T shape afterFence_sampleJSON ws pre by blast
  have 3: "extractJSON ''I abstain'' = []" using U nb by blast
  show ?thesis using 1 2 3 by blast
qed

theorem parseVote_self_vote_first_witness:
  "parseVote sampleUnmarshal \<lparr>ID = 2, Total = 3\<rparr> selfRangeJSON = Inl (SelfVote 2)"
proof -
  have ne: "selfRangeJSON \<noteq> sampleJSON" using sample_distinct(1) by (rule not_sym)
  have found: "extractJSON selfRangeJSON \<noteq> []"
    by (simp add: extractJSON_selfRangeJSON sample_distinct)
  have decoded: "sampleUnmarshal (extractJSON selfRangeJSON) =
      Inr \<lparr>respRankings = [7, 2], respReasoning = ''r''\<rparr>"
    using ne by (simp add: extractJSON_selfRangeJSON sampleUnmarshal_def)
  have self: "ID \<lparr>ID = 2, Total = 3\<rparr>
      \<in> set (respRankings \<lparr>respRankings = [7, 2], respReasoning = ''r''\<rparr>)"
    by simp
  have range: "\<exists>r \<in> set (respRankings \<lparr>respRankings = [7, 2], respReasoning = ''r''\<rparr>).
      r < 1 \<or> r > Total \<lparr>ID = 2, Total = 3\<rparr>"
    by simp
  show ?thesis
    using parseVote_self_vote_first [of selfRangeJSON sampleUnmarshal
        "\<lparr>respRankings = [7, 2], respReasoning = ''r''\<rparr>" "\<lparr>ID = 2, Total = 3\<rparr>"]
      found decoded self range
    by simp
qed

theorem SendMessage_first_text_witness:
  "sent_result (SendMessage toolOnlyReply (\<lambda>attempt. False)) = Inr []
   \<and> sent_result (SendMessage (textReply ''hello'') (\<lambda>attempt. False)) = Inr ''hello''"
  using SendMessage_first_text [of 0 toolOnlyReply "\<lambda>attempt. False"
      "\<lparr>Content = [\<lparr>Type = ''tool_use'', Text = ''x''\<rparr>]\<rparr>"]
    SendMessage_first_text [of 0 "textReply ''hello''" "\<lambda>attempt. False"
      "\<lparr>Content = [\<lparr>Type = ''text'', Text = ''hello''\<rparr>]\<rparr>"]
  by (simp add: toolOnlyReply_def textReply_def extractText_def)

end
